theory Spec2Isabelle
  imports Main
begin

section \<open>Exceptions, functions and their metadata\<close>

text \<open>
  Python exceptions are values. \<open>ThrottleException\<close> is the name the docstring of
  \<^verbatim>\<open>throttle\<close> gives to the error of a refused admission (the specification calls it
  ThrottleExceeded). \<open>CancelledError\<close> is what asyncio throws into a task that is
  cancelled while it is suspended. \<open>IndexError\<close> is Python's error for indexing an empty
  sequence, \<open>RuntimeError\<close> its error for releasing a lock that is not held.
  \<open>UserError\<close> stands for whatever exception a guarded function raises itself.
\<close>

datatype exn =
    ConfigurationError
  | ThrottleException
  | CancelledError
  | IndexError
  | RuntimeError
  | UserError string

text \<open>
  A function object as the decorator sees it: its \<^verbatim>\<open>__name__\<close>, its \<^verbatim>\<open>__doc__\<close>, what
  \<^verbatim>\<open>asyncio.iscoroutinefunction\<close> answers for it, and its body. The body receives the
  argument pack (\<^verbatim>\<open>*args, **kwargs\<close>, type \<open>'a\<close>) and acts on the caller's own state
  \<open>'u\<close>; it returns a value of type \<open>'r\<close> or raises.
\<close>

record ('a, 'r, 'u) func =
  f_name :: string
  f_doc :: "string option"
  f_iscoroutinefunction :: bool
  f_body :: "'a \<Rightarrow> 'u \<Rightarrow> (exn + 'r) \<times> 'u"

section \<open>The throttle objects of \<^verbatim>\<open>throttle.py\<close>\<close>

text \<open>
  \<^verbatim>\<open>decorators.py\<close> imports \<^verbatim>\<open>Throttle\<close> and \<^verbatim>\<open>AsyncThrottle\<close> from \<^verbatim>\<open>.throttle\<close>.
  Times are integers (ticks of a monotonic clock, for instance the microseconds of a
  \<^verbatim>\<open>datetime.timedelta\<close>).
\<close>

datatype thr_class = Blocking | Suspending

record throttle_obj =
  cls :: thr_class
  calls :: int
  period :: int
  raise_on_throttle :: bool
  history :: "int list"

datatype decision = Allow | WaitFor int | Reject

datatype step = Decided decision | Slept int

text \<open>
  Modelled from the spec: the constructors of the classes \<^verbatim>\<open>Throttle\<close> and
  \<^verbatim>\<open>AsyncThrottle\<close> (module \<^verbatim>\<open>throttle.py\<close>). A ThrottleConfiguration is invalid if
  \<open>calls \<le> 0\<close> or \<open>period \<le> 0\<close> and fails at construction time; the call history
  starts empty.
\<close>

definition new_throttle :: "thr_class \<Rightarrow> int \<Rightarrow> int \<Rightarrow> bool \<Rightarrow> exn + throttle_obj" where
  "new_throttle c n p r =
     (if n \<le> 0 \<or> p \<le> 0 then Inl ConfigurationError
      else Inr \<lparr>cls = c, calls = n, period = p, raise_on_throttle = r, history = []\<rparr>)"

text \<open>
  Modelled from the spec: \<^verbatim>\<open>Throttle(calls, period, raise_on_throttle)\<close>, the
  constructor of the blocking throttle, which \<^verbatim>\<open>throttle.py\<close> defines.
\<close>

definition Throttle :: "int \<Rightarrow> int \<Rightarrow> bool \<Rightarrow> exn + throttle_obj" where
  "Throttle = new_throttle Blocking"

text \<open>
  Modelled from the spec: \<^verbatim>\<open>AsyncThrottle(calls, period, raise_on_throttle)\<close>, the
  constructor of the suspending throttle, which \<^verbatim>\<open>throttle.py\<close> defines.
\<close>

definition AsyncThrottle :: "int \<Rightarrow> int \<Rightarrow> bool \<Rightarrow> exn + throttle_obj" where
  "AsyncThrottle = new_throttle Suspending"

text \<open>
  Modelled from the spec: eviction of the sliding-window admission calculator; every
  timestamp \<open>t\<close> with \<open>now - t \<ge> period\<close> leaves the history.
\<close>

definition evict :: "int \<Rightarrow> int \<Rightarrow> int list \<Rightarrow> int list" where
  "evict now p h = filter (\<lambda>t. \<not> (now - t \<ge> p)) h"

text \<open>
  Modelled from the spec: the admission calculator \<^verbatim>\<open>decide(history, now, config)\<close>.
  After the eviction, a history shorter than \<open>calls\<close> gets \<open>now\<close> appended (Allow);
  a full one reads its oldest entry \<^verbatim>\<open>history[0]\<close> and answers Reject under the reject
  policy and \<open>WaitFor (oldest + period - now)\<close> otherwise, the history staying as it is.
\<close>

definition decide :: "throttle_obj \<Rightarrow> int \<Rightarrow> (exn + decision) \<times> throttle_obj" where
  "decide thr now =
     (let h = evict now (period thr) (history thr) in
      if int (length h) < calls thr then (Inr Allow, thr\<lparr>history := h @ [now]\<rparr>)
      else
        (case h of
           [] \<Rightarrow> (Inl IndexError, thr\<lparr>history := h\<rparr>)
         | oldest # _ \<Rightarrow>
             (let releaseAt = oldest + period thr in
              if raise_on_throttle thr then (Inr Reject, thr\<lparr>history := h\<rparr>)
              else (Inr (WaitFor (releaseAt - now)), thr\<lparr>history := h\<rparr>))))"

text \<open>
  The wait step. \<^verbatim>\<open>time.sleep\<close> blocks the thread and returns when the duration has
  passed. \<^verbatim>\<open>asyncio.sleep\<close> suspends the task; a task whose cancellation is pending
  gets \<open>CancelledError\<close> there instead.
\<close>

definition time_sleep :: "int \<Rightarrow> int \<Rightarrow> exn + int" where
  "time_sleep d now = Inr (now + d)"

definition asyncio_sleep :: "bool \<Rightarrow> int \<Rightarrow> int \<Rightarrow> exn + int" where
  "asyncio_sleep cancel d now = (if cancel then Inl CancelledError else Inr (now + d))"

text \<open>
  Modelled from the spec: the blocking throttle waits by blocking its thread, the
  suspending throttle by a cooperative suspension that can be cancelled.
\<close>

fun wait_step :: "thr_class \<Rightarrow> bool \<Rightarrow> int \<Rightarrow> int \<Rightarrow> exn + int" where
  "wait_step Blocking cancel d now = time_sleep d now"
| "wait_step Suspending cancel d now = asyncio_sleep cancel d now"

text \<open>
  Modelled from the spec: the method \<^verbatim>\<open>call\<close> (the spec's \<^verbatim>\<open>admit()\<close>) of both throttle
  classes: loop, decide at the current time, return on Allow, fail with the throttle
  exception on Reject, wait for the given duration on WaitFor and decide again. The
  loop has no attempt counter, so the model is a partial function: \<open>None\<close> is a loop
  that never returns. The steps taken are recorded in the last argument.
\<close>

partial_function (option) admit_loop ::
  "(int \<Rightarrow> int \<Rightarrow> exn + int) \<Rightarrow> throttle_obj \<Rightarrow> int \<Rightarrow> step list
     \<Rightarrow> ((exn + unit) \<times> throttle_obj \<times> int \<times> step list) option"
where
  "admit_loop sleep thr now steps =
     (case decide thr now of
        (Inl e, thr') \<Rightarrow> Some (Inl e, thr', now, steps)
      | (Inr Allow, thr') \<Rightarrow> Some (Inr (), thr', now, steps @ [Decided Allow])
      | (Inr Reject, thr') \<Rightarrow>
          Some (Inl ThrottleException, thr', now, steps @ [Decided Reject])
      | (Inr (WaitFor d), thr') \<Rightarrow>
          (case sleep d now of
             Inl e \<Rightarrow> Some (Inl e, thr', now, steps @ [Decided (WaitFor d)])
           | Inr now' \<Rightarrow>
               admit_loop sleep thr' now' (steps @ [Decided (WaitFor d), Slept d])))"

declare admit_loop.simps [code]

section \<open>Locks, closure cells and the world\<close>

text \<open>
  \<^verbatim>\<open>threading.RLock\<close> and \<^verbatim>\<open>asyncio.Lock\<close>. The model follows one thread of control
  (a thread, or a task of the event loop), so a lock is described by how often that
  thread of control holds it. An \<open>RLock\<close> is re-entrant: the holder may acquire it
  again. An \<open>asyncio.Lock\<close> is not: acquiring it while it is held waits for a release
  that nobody is left to perform, so the acquisition never returns (\<open>None\<close>).
\<close>

datatype lock_class = RLock | AsyncLock

record lock_obj =
  lk_class :: lock_class
  depth :: nat

definition lock_acquire :: "lock_obj \<Rightarrow> lock_obj option" where
  "lock_acquire l =
     (case lk_class l of
        RLock \<Rightarrow> Some (l\<lparr>depth := Suc (depth l)\<rparr>)
      | AsyncLock \<Rightarrow> (if depth l = 0 then Some (l\<lparr>depth := 1\<rparr>) else None))"

definition lock_release :: "lock_obj \<Rightarrow> exn + lock_obj" where
  "lock_release l =
     (case depth l of
        0 \<Rightarrow> Inl RuntimeError
      | Suc k \<Rightarrow> Inr (l\<lparr>depth := k\<rparr>))"

text \<open>
  One activation of \<^verbatim>\<open>decorator(func)\<close> creates the two objects \<^verbatim>\<open>thr\<close> and \<^verbatim>\<open>lock\<close>
  that its \<^verbatim>\<open>wrapper\<close> closes over. The world keeps these closure cells in a list; a
  reference is an index into it, and allocation appends.
\<close>

record closure =
  thr :: throttle_obj
  lock :: lock_obj

datatype event =
    Acquire nat
  | AdmitStep nat step
  | Release nat
  | Invoke string

record 'u world =
  clock :: int
  cancel_pending :: bool
  cells :: "closure list"
  user :: 'u
  trace :: "event list"

definition cell :: "'u world \<Rightarrow> nat \<Rightarrow> closure option" where
  "cell w r = (if r < length (cells w) then Some (cells w ! r) else None)"

definition set_cell :: "nat \<Rightarrow> closure \<Rightarrow> 'u world \<Rightarrow> 'u world" where
  "set_cell r c w = w\<lparr>cells := (cells w)[r := c]\<rparr>"

definition emit :: "event list \<Rightarrow> 'u world \<Rightarrow> 'u world" where
  "emit es w = w\<lparr>trace := trace w @ es\<rparr>"

definition acquire :: "nat \<Rightarrow> 'u world \<Rightarrow> 'u world option" where
  "acquire r w =
     (case cell w r of
        None \<Rightarrow> None
      | Some c \<Rightarrow>
          (case lock_acquire (lock c) of
             None \<Rightarrow> None
           | Some l \<Rightarrow> Some (emit [Acquire r] (set_cell r (c\<lparr>lock := l\<rparr>) w))))"

definition release :: "nat \<Rightarrow> 'u world \<Rightarrow> ((exn + unit) \<times> 'u world) option" where
  "release r w =
     (case cell w r of
        None \<Rightarrow> None
      | Some c \<Rightarrow>
          (case lock_release (lock c) of
             Inl e \<Rightarrow> Some (Inl e, w)
           | Inr l \<Rightarrow> Some (Inr (), emit [Release r] (set_cell r (c\<lparr>lock := l\<rparr>) w))))"

text \<open>
  Modelled from the spec: \<^verbatim>\<open>thr.call()\<close> on the throttle object of cell \<open>r\<close>. The class
  of the object selects the wait step; the loop runs at the world's clock and leaves the
  clock where its last wait ended. A cancellation that was delivered is no longer
  pending.
\<close>

definition thr_call :: "nat \<Rightarrow> 'u world \<Rightarrow> ((exn + unit) \<times> 'u world) option" where
  "thr_call r w =
     (case cell w r of
        None \<Rightarrow> None
      | Some c \<Rightarrow>
          (case admit_loop (wait_step (cls (thr c)) (cancel_pending w)) (thr c) (clock w) [] of
             None \<Rightarrow> None
           | Some (res, thr', now', steps) \<Rightarrow>
               Some (res,
                     emit (map (AdmitStep r) steps)
                       (set_cell r (c\<lparr>thr := thr'\<rparr>)
                         (w\<lparr>clock := now',
                            cancel_pending :=
                              (cancel_pending w \<and> res \<noteq> Inl CancelledError)\<rparr>)))))"

section \<open>\<^verbatim>\<open>decorators.py\<close>\<close>

text \<open>
  The statement \<^verbatim>\<open>with lock: body\<close> (and \<^verbatim>\<open>async with lock: await body\<close>): acquire,
  run the body, release whether the body returned or raised, and pass the body's
  outcome on.
\<close>

definition with_lock ::
  "nat \<Rightarrow> ('u world \<Rightarrow> ((exn + 'x) \<times> 'u world) option) \<Rightarrow> 'u world
     \<Rightarrow> ((exn + 'x) \<times> 'u world) option"
where
  "with_lock r body w =
     (case acquire r w of
        None \<Rightarrow> None
      | Some w1 \<Rightarrow>
          (case body w1 of
             None \<Rightarrow> None
           | Some (res, w2) \<Rightarrow>
               (case release r w2 of
                  None \<Rightarrow> None
                | Some (Inl e, w3) \<Rightarrow> Some (Inl e, w3)
                | Some (Inr _, w3) \<Rightarrow> Some (res, w3))))"

text \<open>The call \<^verbatim>\<open>func(*args, **kwargs)\<close> of the guarded function.\<close>

definition invoke :: "('a, 'r, 'u) func \<Rightarrow> 'a \<Rightarrow> 'u world \<Rightarrow> (exn + 'r) \<times> 'u world" where
  "invoke func args w =
     (case f_body func args (user w) of
        (res, u') \<Rightarrow> (res, emit [Invoke (f_name func)] (w\<lparr>user := u'\<rparr>)))"

text \<open>
  The two inner functions named \<^verbatim>\<open>wrapper\<close>: lines 44 to 49 (the coroutine) and lines
  56 to 61 (the plain function). An exception leaving the \<^verbatim>\<open>with\<close> block ends the
  wrapper; otherwise the guarded function is called and its outcome returned.
\<close>

definition async_wrapper ::
  "('a, 'r, 'u) func \<Rightarrow> nat \<Rightarrow> 'a \<Rightarrow> 'u world \<Rightarrow> ((exn + 'r) \<times> 'u world) option"
where
  "async_wrapper func r args w =
     (case with_lock r (thr_call r) w of
        None \<Rightarrow> None
      | Some (Inl e, w') \<Rightarrow> Some (Inl e, w')
      | Some (Inr _, w') \<Rightarrow> Some (invoke func args w'))"

definition sync_wrapper ::
  "('a, 'r, 'u) func \<Rightarrow> nat \<Rightarrow> 'a \<Rightarrow> 'u world \<Rightarrow> ((exn + 'r) \<times> 'u world) option"
where
  "sync_wrapper func r args w =
     (case with_lock r (thr_call r) w of
        None \<Rightarrow> None
      | Some (Inl e, w') \<Rightarrow> Some (Inl e, w')
      | Some (Inr _, w') \<Rightarrow> Some (invoke func args w'))"

text \<open>
  The function object a \<^verbatim>\<open>def wrapper\<close> creates: its metadata, whether it is a coroutine
  function (\<^verbatim>\<open>async def\<close>), the closure cell it refers to, and its code.
  \<^verbatim>\<open>functools.wraps(func)\<close> copies the name and the docstring of \<^verbatim>\<open>func\<close> onto it and
  sets \<^verbatim>\<open>__wrapped__\<close> to \<^verbatim>\<open>func\<close>.
\<close>

record ('a, 'r, 'u) wrapper =
  w_name :: string
  w_doc :: "string option"
  w_wrapped :: "('a, 'r, 'u) func option"
  w_iscoroutinefunction :: bool
  w_cell :: nat
  w_call :: "'a \<Rightarrow> 'u world \<Rightarrow> ((exn + 'r) \<times> 'u world) option"

definition wraps :: "('a, 'r, 'u) func \<Rightarrow> ('a, 'r, 'u) wrapper \<Rightarrow> ('a, 'r, 'u) wrapper" where
  "wraps func wr = wr\<lparr>w_name := f_name func, w_doc := f_doc func, w_wrapped := Some func\<rparr>"

definition alloc :: "closure \<Rightarrow> 'u world \<Rightarrow> nat \<times> 'u world" where
  "alloc c w = (length (cells w), w\<lparr>cells := cells w @ [c]\<rparr>)"

text \<open>
  \<^verbatim>\<open>decorator(func)\<close>, lines 37 to 63, in the scope of the arguments of \<^verbatim>\<open>throttle\<close>.
  A constructor that raises ends the decorator before anything is allocated.
\<close>

definition decorator ::
  "int \<Rightarrow> int \<Rightarrow> bool \<Rightarrow> ('a, 'r, 'u) func \<Rightarrow> 'u world
     \<Rightarrow> (exn + ('a, 'r, 'u) wrapper) \<times> 'u world"
where
  "decorator ncalls per rot func w =
     (if f_iscoroutinefunction func then
        (case AsyncThrottle ncalls per rot of
           Inl e \<Rightarrow> (Inl e, w)
         | Inr t \<Rightarrow>
             (case alloc \<lparr>thr = t, lock = \<lparr>lk_class = AsyncLock, depth = 0\<rparr>\<rparr> w of
                (r, w') \<Rightarrow>
                  (Inr (wraps func
                         \<lparr>w_name = ''wrapper'', w_doc = None, w_wrapped = None,
                          w_iscoroutinefunction = True, w_cell = r,
                          w_call = async_wrapper func r\<rparr>),
                   w')))
      else
        (case Throttle ncalls per rot of
           Inl e \<Rightarrow> (Inl e, w)
         | Inr t \<Rightarrow>
             (case alloc \<lparr>thr = t, lock = \<lparr>lk_class = RLock, depth = 0\<rparr>\<rparr> w of
                (r, w') \<Rightarrow>
                  (Inr (wraps func
                         \<lparr>w_name = ''wrapper'', w_doc = None, w_wrapped = None,
                          w_iscoroutinefunction = False, w_cell = r,
                          w_call = sync_wrapper func r\<rparr>),
                   w'))))"

text \<open>
  \<^verbatim>\<open>throttle(calls, period, raise_on_throttle)\<close> only defines \<^verbatim>\<open>decorator\<close> and returns it.
\<close>

definition throttle ::
  "int \<Rightarrow> int \<Rightarrow> bool \<Rightarrow> ('a, 'r, 'u) func \<Rightarrow> 'u world
     \<Rightarrow> (exn + ('a, 'r, 'u) wrapper) \<times> 'u world"
where
  "throttle ncalls per rot = decorator ncalls per rot"

section \<open>Well-formed throttles, outcomes and examples\<close>

text \<open>
  What the constructors establish and every admission keeps: a positive ceiling, a
  positive period and a history no longer than the ceiling.
\<close>

definition wf_thr :: "throttle_obj \<Rightarrow> bool" where
  "wf_thr t \<longleftrightarrow> 0 < calls t \<and> 0 < period t \<and> int (length (history t)) \<le> calls t"

text \<open>The sliding window is full at \<open>now\<close>: after the eviction no slot is left.\<close>

definition window_full :: "throttle_obj \<Rightarrow> int \<Rightarrow> bool" where
  "window_full t now \<longleftrightarrow> \<not> int (length (evict now (period t) (history t))) < calls t"

text \<open>A closure cell between two calls: its throttle is well formed and its lock is free.\<close>

definition ready :: "closure \<Rightarrow> bool" where
  "ready c \<longleftrightarrow> wf_thr (thr c) \<and> depth (lock c) = 0"

text \<open>The outcome of an admission attempt on a well-formed throttle.\<close>

definition admit_outcome ::
  "thr_class \<Rightarrow> bool \<Rightarrow> throttle_obj \<Rightarrow> int
     \<Rightarrow> (exn + unit) \<times> throttle_obj \<times> int \<times> step list \<Rightarrow> bool"
where
  "admit_outcome k cancel t now y \<longleftrightarrow>
     (case y of (res, t', now', steps) \<Rightarrow>
        wf_thr t' \<and> cls t' = cls t \<and> raise_on_throttle t' = raise_on_throttle t \<and>
        (if \<not> window_full t now then
           res = Inr () \<and> steps = [Decided Allow] \<and> now' = now
         else if raise_on_throttle t then
           res = Inl ThrottleException \<and> steps = [Decided Reject] \<and> now' = now
         else if k = Suspending \<and> cancel then
           res = Inl CancelledError \<and> (\<exists>d. steps = [Decided (WaitFor d)]) \<and> now' = now
         else
           res = Inr () \<and> (\<exists>d. steps = [Decided (WaitFor d), Slept d, Decided Allow]
                               \<and> 0 < d \<and> now' = now + d)))"

text \<open>The world after \<^verbatim>\<open>with lock: thr.call()\<close> on cell \<open>r\<close>.\<close>

definition after_admission ::
  "nat \<Rightarrow> closure \<Rightarrow> (exn + unit) \<Rightarrow> throttle_obj \<Rightarrow> int \<Rightarrow> step list \<Rightarrow> 'u world \<Rightarrow> 'u world"
where
  "after_admission r c res t' now' steps w =
     w\<lparr>clock := now',
       cancel_pending := (cancel_pending w \<and> res \<noteq> Inl CancelledError),
       cells := (cells w)[r := c\<lparr>thr := t'\<rparr>],
       trace := trace w @ Acquire r # map (AdmitStep r) steps @ [Release r]\<rparr>"

text \<open>A plain function, a coroutine function and an empty world for concrete runs.\<close>

definition example_func :: "(int, int, int list) func" where
  "example_func =
     \<lparr>f_name = ''work'', f_doc = Some ''does the work'', f_iscoroutinefunction = False,
      f_body = (\<lambda>a u. if a < 0 then (Inl (UserError ''negative''), u)
                      else (Inr (a + 1), u @ [a]))\<rparr>"

definition example_coro :: "(int, int, int list) func" where
  "example_coro = example_func\<lparr>f_name := ''fetch'', f_iscoroutinefunction := True\<rparr>"

definition world0 :: "int list world" where
  "world0 = \<lparr>clock = 0, cancel_pending = False, cells = [], user = [], trace = []\<rparr>"

text \<open>The closure cell a successful \<^verbatim>\<open>decorator(func)\<close> allocates.\<close>

definition new_cell :: "bool \<Rightarrow> int \<Rightarrow> int \<Rightarrow> bool \<Rightarrow> closure" where
  "new_cell co n p rot =
     \<lparr>thr = \<lparr>cls = (if co then Suspending else Blocking), calls = n, period = p,
             raise_on_throttle = rot, history = []\<rparr>,
      lock = \<lparr>lk_class = (if co then AsyncLock else RLock), depth = 0\<rparr>\<rparr>"

text \<open>A closure cell with ceiling 1 and period 10, of a given class, policy and history.\<close>

definition example_cell :: "thr_class \<Rightarrow> bool \<Rightarrow> int list \<Rightarrow> closure" where
  "example_cell k rot h =
     \<lparr>thr = \<lparr>cls = k, calls = 1, period = 10, raise_on_throttle = rot, history = h\<rparr>,
      lock = \<lparr>lk_class = (case k of Blocking \<Rightarrow> RLock | Suspending \<Rightarrow> AsyncLock),
              depth = 0\<rparr>\<rparr>"

section \<open>Concurrent callers of one guarded operation\<close>

text \<open>
  Several callers (threads for the plain wrapper, tasks for the coroutine wrapper) run
  the same wrapper on the same closure cell of one shared world. Each caller is at one of
  these points of the wrapper: before the \<^verbatim>\<open>with\<close> statement; inside \<^verbatim>\<open>thr.call()\<close>
  and about to decide; inside \<^verbatim>\<open>thr.call()\<close> in its wait step, with the time at which
  the wait ends and its duration; past \<^verbatim>\<open>thr.call()\<close> with its outcome and about to
  leave the \<^verbatim>\<open>with\<close> block; after the block and about to call the guarded function;
  finished, with the outcome of the wrapper.
\<close>

datatype 'r pc =
    Start
  | Admitting
  | Sleeping int int
  | Leaving "exn + unit"
  | Calling
  | Done "exn + 'r"

text \<open>
  The state of a run: the shared world, the point each caller has reached, and the
  history of the run, which pairs every event of the world's trace with the caller that
  caused it.
\<close>

record ('r, 'u) conc =
  shared :: "'u world"
  pcs :: "nat \<Rightarrow> 'r pc"
  events :: "(nat \<times> event) list"

text \<open>
  The scheduler lets a caller take its next step, lets time pass, or delivers a
  cancellation to a task.
\<close>

datatype action = Run nat | Tick nat | Cancel nat

text \<open>
  Caller \<open>i\<close> has taken a step to the point \<open>q\<close> that left the world \<open>w'\<close>: what the
  step appended to the trace enters the history under the caller's name.
\<close>

definition move :: "nat \<Rightarrow> 'r pc \<Rightarrow> 'u world \<Rightarrow> ('r, 'u) conc \<Rightarrow> ('r, 'u) conc" where
  "move i q w' s =
     s\<lparr>shared := w', pcs := (pcs s)(i := q),
       events := events s @ map (Pair i) (drop (length (trace (shared s))) (trace w'))\<rparr>"

text \<open>
  The next step of one caller through the wrapper (lines 46 to 49 and 58 to 61), made of
  the operations the wrapper itself is made of. Entering the \<^verbatim>\<open>with\<close> statement is
  \<open>acquire\<close>; a caller makes one call and holds nothing before it, so a lock that is
  held is held by another caller and the caller stays where it is. Inside
  \<^verbatim>\<open>thr.call()\<close> a step is one decision of the admission loop on the throttle of the
  cell, or the end of a wait whose time has come. Leaving the block is \<open>release\<close>; an
  exception ends the wrapper, otherwise the guarded function is called next with
  \<open>invoke\<close>.
\<close>

definition caller_step ::
  "('a, 'r, 'u) func \<Rightarrow> nat \<Rightarrow> 'a \<Rightarrow> 'u world \<Rightarrow> 'r pc \<Rightarrow> 'u world \<times> 'r pc"
where
  "caller_step func r args w q =
     (case q of
        Start \<Rightarrow>
          (case cell w r of
             None \<Rightarrow> (w, q)
           | Some c \<Rightarrow>
               if depth (lock c) = 0 then
                 (case acquire r w of
                    None \<Rightarrow> (w, q)
                  | Some w' \<Rightarrow> (w', Admitting))
               else (w, q))
      | Admitting \<Rightarrow>
          (case cell w r of
             None \<Rightarrow> (w, q)
           | Some c \<Rightarrow>
               (case decide (thr c) (clock w) of
                  (Inl e, t') \<Rightarrow> (set_cell r (c\<lparr>thr := t'\<rparr>) w, Leaving (Inl e))
                | (Inr Allow, t') \<Rightarrow>
                    (emit [AdmitStep r (Decided Allow)] (set_cell r (c\<lparr>thr := t'\<rparr>) w),
                     Leaving (Inr ()))
                | (Inr Reject, t') \<Rightarrow>
                    (emit [AdmitStep r (Decided Reject)] (set_cell r (c\<lparr>thr := t'\<rparr>) w),
                     Leaving (Inl ThrottleException))
                | (Inr (WaitFor d), t') \<Rightarrow>
                    (emit [AdmitStep r (Decided (WaitFor d))] (set_cell r (c\<lparr>thr := t'\<rparr>) w),
                     Sleeping (clock w + d) d)))
      | Sleeping until d \<Rightarrow>
          (if until \<le> clock w then (emit [AdmitStep r (Slept d)] w, Admitting) else (w, q))
      | Leaving ares \<Rightarrow>
          (case release r w of
             None \<Rightarrow> (w, q)
           | Some (Inl e, w') \<Rightarrow> (w', Done (Inl e))
           | Some (Inr _, w') \<Rightarrow>
               (case ares of
                  Inl e \<Rightarrow> (w', Done (Inl e))
                | Inr _ \<Rightarrow> (w', Calling)))
      | Calling \<Rightarrow>
          (case invoke func args w of
             (res, w') \<Rightarrow> (w', Done res))
      | Done _ \<Rightarrow> (w, q))"

text \<open>Caller \<open>i\<close>, whose arguments are \<open>argv i\<close>, takes its next step in the shared world.\<close>

definition run_caller ::
  "('a, 'r, 'u) func \<Rightarrow> nat \<Rightarrow> (nat \<Rightarrow> 'a) \<Rightarrow> nat \<Rightarrow> ('r, 'u) conc \<Rightarrow> ('r, 'u) conc"
where
  "run_caller func r argv i s =
     (case caller_step func r (argv i) (shared s) (pcs s i) of
        (w', q) \<Rightarrow> move i q w' s)"

text \<open>
  A cancellation reaches a task only where it is suspended: in the wait step, which then
  raises inside the \<^verbatim>\<open>async with\<close> block, or while it queues for the lock, which ends
  the wrapper before the lock is taken. Threads cannot be cancelled.
\<close>

definition cancel_caller :: "nat \<Rightarrow> nat \<Rightarrow> ('r, 'u) conc \<Rightarrow> ('r, 'u) conc" where
  "cancel_caller r i s =
     (case cell (shared s) r of
        None \<Rightarrow> s
      | Some c \<Rightarrow>
          (case cls (thr c) of
             Blocking \<Rightarrow> s
           | Suspending \<Rightarrow>
               (case pcs s i of
                  Start \<Rightarrow> s\<lparr>pcs := (pcs s)(i := Done (Inl CancelledError))\<rparr>
                | Sleeping _ _ \<Rightarrow> s\<lparr>pcs := (pcs s)(i := Leaving (Inl CancelledError))\<rparr>
                | _ \<Rightarrow> s)))"

fun act ::
  "('a, 'r, 'u) func \<Rightarrow> nat \<Rightarrow> (nat \<Rightarrow> 'a) \<Rightarrow> action \<Rightarrow> ('r, 'u) conc \<Rightarrow> ('r, 'u) conc"
where
  "act func r argv (Run i) s = run_caller func r argv i s"
| "act func r argv (Tick d) s = s\<lparr>shared := (shared s)\<lparr>clock := clock (shared s) + int d\<rparr>\<rparr>"
| "act func r argv (Cancel i) s = cancel_caller r i s"

fun exec ::
  "('a, 'r, 'u) func \<Rightarrow> nat \<Rightarrow> (nat \<Rightarrow> 'a) \<Rightarrow> action list \<Rightarrow> ('r, 'u) conc \<Rightarrow> ('r, 'u) conc"
where
  "exec func r argv [] s = s"
| "exec func r argv (a # as) s = exec func r argv as (act func r argv a s)"

text \<open>At the start nobody has called yet.\<close>

definition initial :: "'u world \<Rightarrow> ('r, 'u) conc" where
  "initial w = \<lparr>shared = w, pcs = (\<lambda>_. Start), events = []\<rparr>"

text \<open>A caller is inside its admission attempt from the acquisition to the release.\<close>

fun in_admission :: "'r pc \<Rightarrow> bool" where
  "in_admission Admitting = True"
| "in_admission (Sleeping _ _) = True"
| "in_admission (Leaving _) = True"
| "in_admission _ = False"

text \<open>
  A history is serial if, read from the start with nobody holding the lock, every
  acquisition finds the lock free, every admission step and every release belongs to the
  current holder, and nobody calls the guarded function while holding the lock. The
  result is the holder at the end, or \<open>None\<close> for a history that is not serial.
\<close>

fun serial :: "nat option \<Rightarrow> (nat \<times> event) list \<Rightarrow> nat option option" where
  "serial h [] = Some h"
| "serial h ((i, Acquire r) # es) = (if h = None then serial (Some i) es else None)"
| "serial h ((i, AdmitStep r st) # es) = (if h = Some i then serial h es else None)"
| "serial h ((i, Release r) # es) = (if h = Some i then serial None es else None)"
| "serial h ((i, Invoke f) # es) = (if h = Some i then None else serial h es)"

text \<open>The callers in the order of their acquisitions, and in the order of their releases.\<close>

fun acquired :: "(nat \<times> event) list \<Rightarrow> nat list" where
  "acquired [] = []"
| "acquired ((i, Acquire r) # es) = i # acquired es"
| "acquired (_ # es) = acquired es"

fun released :: "(nat \<times> event) list \<Rightarrow> nat list" where
  "released [] = []"
| "released ((i, Release r) # es) = i # released es"
| "released (_ # es) = released es"

definition holding :: "nat option \<Rightarrow> nat list" where
  "holding h = (case h of None \<Rightarrow> [] | Some i \<Rightarrow> [i])"

text \<open>
  The invariant of a run: the history is serial, the callers inside an admission attempt
  are exactly its holder, the lock of the cell is held exactly when there is a holder,
  and the acquisitions are the releases followed by the holder.
\<close>

definition serialized :: "nat \<Rightarrow> ('r, 'u) conc \<Rightarrow> bool" where
  "serialized r s \<longleftrightarrow>
     (\<exists>c h. cell (shared s) r = Some c \<and>
            serial None (events s) = Some h \<and>
            (\<forall>i. in_admission (pcs s i) \<longleftrightarrow> h = Some i) \<and>
            depth (lock c) = (case h of None \<Rightarrow> 0 | Some _ \<Rightarrow> 1) \<and>
            acquired (events s) = released (events s) @ holding h)"

text \<open>
  What every step keeps of the shared world: no cancellation is pending in it and the
  throttle of the cell is well formed.
\<close>

definition steady :: "nat \<Rightarrow> 'u world \<Rightarrow> bool" where
  "steady r w \<longleftrightarrow> \<not> cancel_pending w \<and> (\<exists>c. cell w r = Some c \<and> wf_thr (thr c))"

text \<open>A schedule of three callers and the world it starts from, for a concrete run.\<close>

definition example_schedule :: "action list" where
  "example_schedule =
     [Run 0, Run 1, Run 0, Run 1, Tick 3, Run 0, Run 1, Run 1, Cancel 1, Run 2, Run 0]"

definition example_start :: "int list world" where
  "example_start = world0\<lparr>cells := [example_cell Blocking False []]\<rparr>"

section \<open>The admission loop on a well-formed throttle\<close>

lemma length_evict: "length (evict now p h) \<le> length h"
  by (simp add: evict_def)

lemma evict_after_wait: "length (evict (oldest + p) p (oldest # rest)) \<le> length rest"
  by (simp add: evict_def)

lemma admit_allow:
  assumes "\<not> window_full t now"
  shows "admit_loop sleep t now steps =
           Some (Inr (), t\<lparr>history := evict now (period t) (history t) @ [now]\<rparr>, now,
                 steps @ [Decided Allow])"
  using assms by (subst admit_loop.simps) (simp add: decide_def window_full_def)

lemma admit_reject:
  assumes "window_full t now" and "evict now (period t) (history t) = oldest # rest"
    and "raise_on_throttle t"
  shows "admit_loop sleep t now steps =
           Some (Inl ThrottleException, t\<lparr>history := oldest # rest\<rparr>, now,
                 steps @ [Decided Reject])"
  using assms by (subst admit_loop.simps) (simp add: decide_def window_full_def)

lemma admit_wait_raises:
  assumes "window_full t now" and "evict now (period t) (history t) = oldest # rest"
    and "\<not> raise_on_throttle t" and "sleep (oldest + period t - now) now = Inl e"
  shows "admit_loop sleep t now steps =
           Some (Inl e, t\<lparr>history := oldest # rest\<rparr>, now,
                 steps @ [Decided (WaitFor (oldest + period t - now))])"
  using assms by (subst admit_loop.simps) (simp add: decide_def window_full_def)

lemma admit_wait_again:
  assumes "window_full t now" and "evict now (period t) (history t) = oldest # rest"
    and "\<not> raise_on_throttle t" and "sleep (oldest + period t - now) now = Inr now'"
  shows "admit_loop sleep t now steps =
           admit_loop sleep (t\<lparr>history := oldest # rest\<rparr>) now'
             (steps @ [Decided (WaitFor (oldest + period t - now)),
                       Slept (oldest + period t - now)])"
  using assms by (subst admit_loop.simps) (simp add: decide_def window_full_def)

lemma full_nonempty:
  assumes "wf_thr t" and "window_full t now"
  shows "\<exists>oldest rest. evict now (period t) (history t) = oldest # rest
           \<and> int (length (oldest # rest)) \<le> calls t"
proof -
  have "int (length (evict now (period t) (history t))) \<le> calls t"
    using assms(1) length_evict [of now "period t" "history t"] by (simp add: wf_thr_def)
  moreover have "evict now (period t) (history t) \<noteq> []"
    using assms by (auto simp: wf_thr_def window_full_def)
  ultimately show ?thesis
    by (cases "evict now (period t) (history t)") auto
qed

lemma not_full_after_wait:
  assumes "int (length (oldest # rest)) \<le> calls t"
  shows "\<not> window_full (t\<lparr>history := oldest # rest\<rparr>) (oldest + period t)"
proof -
  have "length (evict (oldest + period t) (period t) (oldest # rest)) \<le> length rest"
    by (rule evict_after_wait)
  with assms show ?thesis by (simp add: window_full_def)
qed

lemma admit_wait_allow:
  assumes "window_full t now"
    and "evict now (period t) (history t) = oldest # rest"
    and "int (length (oldest # rest)) \<le> calls t"
    and "\<not> raise_on_throttle t"
    and "sleep (oldest + period t - now) now = Inr (oldest + period t)"
  shows "admit_loop sleep t now steps =
           Some (Inr (),
                 t\<lparr>history := evict (oldest + period t) (period t) (oldest # rest)
                                 @ [oldest + period t]\<rparr>,
                 oldest + period t,
                 steps @ [Decided (WaitFor (oldest + period t - now)),
                          Slept (oldest + period t - now), Decided Allow])"
proof -
  have nf: "\<not> window_full (t\<lparr>history := oldest # rest\<rparr>) (oldest + period t)"
    by (rule not_full_after_wait [OF assms(3)])
  have "admit_loop sleep t now steps =
          admit_loop sleep (t\<lparr>history := oldest # rest\<rparr>) (oldest + period t)
             (steps @ [Decided (WaitFor (oldest + period t - now)),
                       Slept (oldest + period t - now)])"
    using assms(1,2,4,5) by (rule admit_wait_again)
  then show ?thesis
    by (simp add: admit_allow [OF nf])
qed

lemma evict_head_recent:
  assumes "evict now p h = oldest # rest"
  shows "now - oldest < p"
proof -
  have "oldest \<in> set (evict now p h)" using assms by simp
  then show ?thesis by (simp add: evict_def)
qed

lemma admit_total:
  assumes wf: "wf_thr t"
  shows "\<exists>y. admit_loop (wait_step k cancel) t now [] = Some y \<and> admit_outcome k cancel t now y"
proof (cases "window_full t now")
  case False
  have wf0: "wf_thr (t\<lparr>history := evict now (period t) (history t) @ [now]\<rparr>)"
    using wf False by (simp add: wf_thr_def window_full_def)
  show ?thesis
    unfolding admit_allow [OF False] using False wf0 by (simp add: admit_outcome_def)
next
  case True
  obtain oldest rest where h: "evict now (period t) (history t) = oldest # rest"
    and le: "int (length (oldest # rest)) \<le> calls t"
    using full_nonempty [OF wf True] by blast
  have wf1: "wf_thr (t\<lparr>history := oldest # rest\<rparr>)"
    using wf le by (simp add: wf_thr_def)
  show ?thesis
  proof (cases "raise_on_throttle t")
    case r: True
    show ?thesis
      unfolding admit_reject [OF True h r] using True r wf1 by (simp add: admit_outcome_def)
  next
    case r: False
    let ?d = "oldest + period t - now"
    have dpos: "0 < ?d" using evict_head_recent [OF h] by simp
    show ?thesis
    proof (cases "k = Suspending \<and> cancel")
      case c: True
      then have sl: "wait_step k cancel ?d now = Inl CancelledError"
        by (simp add: asyncio_sleep_def)
      show ?thesis
        unfolding admit_wait_raises [where sleep = "wait_step k cancel", OF True h r sl]
        using True r wf1 c by (simp add: admit_outcome_def)
    next
      case c: False
      then have sl: "wait_step k cancel ?d now = Inr (oldest + period t)"
        by (cases k) (simp_all add: asyncio_sleep_def time_sleep_def)
      have "length (evict (oldest + period t) (period t) (oldest # rest)) \<le> length rest"
        by (rule evict_after_wait)
      with le wf have wf2: "wf_thr (t\<lparr>history := evict (oldest + period t) (period t) (oldest # rest)
                                 @ [oldest + period t]\<rparr>)"
        by (simp add: wf_thr_def)
      show ?thesis
        unfolding admit_wait_allow [where sleep = "wait_step k cancel", OF True h le r sl]
        using True r wf2 c dpos by (simp add: admit_outcome_def)
    qed
  qed
qed

lemma lock_acquire_release:
  "lock_acquire l = Some l' \<Longrightarrow> lock_release l' = Inr l"
  by (auto simp: lock_acquire_def lock_release_def split: lock_class.splits if_splits)

lemma lock_acquire_free: "depth l = 0 \<Longrightarrow> \<exists>l'. lock_acquire l = Some l'"
  by (simp add: lock_acquire_def split: lock_class.splits)

lemma cell_bound: "cell w r = Some c \<Longrightarrow> r < length (cells w) \<and> cells w ! r = c"
  by (simp add: cell_def split: if_splits)

lemma acquire_Some:
  assumes "cell w r = Some c" and "lock_acquire (lock c) = Some l"
  shows "acquire r w = Some (w\<lparr>cells := (cells w)[r := c\<lparr>lock := l\<rparr>], trace := trace w @ [Acquire r]\<rparr>)"
  using assms by (simp add: acquire_def set_cell_def emit_def)

lemma thr_call_Some:
  assumes "cell w r = Some c"
    and "admit_loop (wait_step (cls (thr c)) (cancel_pending w)) (thr c) (clock w) []
           = Some (res, t', now', steps)"
  shows "thr_call r w =
           Some (res, w\<lparr>clock := now',
                        cancel_pending := (cancel_pending w \<and> res \<noteq> Inl CancelledError),
                        cells := (cells w)[r := c\<lparr>thr := t'\<rparr>],
                        trace := trace w @ map (AdmitStep r) steps\<rparr>)"
  using assms by (simp add: thr_call_def set_cell_def emit_def)

lemma release_Some:
  assumes "cell w r = Some c" and "lock_release (lock c) = Inr l"
  shows "release r w = Some (Inr (), w\<lparr>cells := (cells w)[r := c\<lparr>lock := l\<rparr>], trace := trace w @ [Release r]\<rparr>)"
  using assms by (simp add: release_def set_cell_def emit_def)

lemma guarded_admission:
  assumes c: "cell w r = Some c" and l: "lock_acquire (lock c) = Some l"
    and a: "admit_loop (wait_step (cls (thr c)) (cancel_pending w)) (thr c) (clock w) []
              = Some (res, t', now', steps)"
  shows "with_lock r (thr_call r) w = Some (res, after_admission r c res t' now' steps w)"
proof -
  let ?w1 = "w\<lparr>cells := (cells w)[r := c\<lparr>lock := l\<rparr>], trace := trace w @ [Acquire r]\<rparr>"
  let ?c1 = "c\<lparr>lock := l\<rparr>"
  have lt: "r < length (cells w)" using cell_bound [OF c] by simp
  have c1: "cell ?w1 r = Some ?c1" using lt by (simp add: cell_def)
  have a1: "admit_loop (wait_step (cls (thr ?c1)) (cancel_pending ?w1)) (thr ?c1) (clock ?w1) []
              = Some (res, t', now', steps)"
    using a by simp
  let ?w2 = "?w1\<lparr>clock := now',
                  cancel_pending := (cancel_pending ?w1 \<and> res \<noteq> Inl CancelledError),
                  cells := (cells ?w1)[r := ?c1\<lparr>thr := t'\<rparr>],
                  trace := trace ?w1 @ map (AdmitStep r) steps\<rparr>"
  let ?c2 = "?c1\<lparr>thr := t'\<rparr>"
  have s1: "acquire r w = Some ?w1" by (rule acquire_Some [OF c l])
  have s2: "thr_call r ?w1 = Some (res, ?w2)" by (rule thr_call_Some [OF c1 a1])
  have c2: "cell ?w2 r = Some ?c2" using lt by (simp add: cell_def)
  have r2: "lock_release (lock ?c2) = Inr (lock c)"
    using lock_acquire_release [OF l] by simp
  have s3: "release r ?w2 =
              Some (Inr (), ?w2\<lparr>cells := (cells ?w2)[r := ?c2\<lparr>lock := lock c\<rparr>],
                               trace := trace ?w2 @ [Release r]\<rparr>)"
    by (rule release_Some [OF c2 r2])
  have "with_lock r (thr_call r) w =
          Some (res, ?w2\<lparr>cells := (cells ?w2)[r := ?c2\<lparr>lock := lock c\<rparr>],
                          trace := trace ?w2 @ [Release r]\<rparr>)"
    by (simp only: with_lock_def s1 s2 s3 option.case prod.case sum.case)
  then show ?thesis by (simp add: after_admission_def)
qed

lemma guarded_admission_inv:
  assumes "with_lock r (thr_call r) w = Some (res, w')"
  shows "\<exists>c l t' now' steps.
           cell w r = Some c \<and> lock_acquire (lock c) = Some l \<and>
           admit_loop (wait_step (cls (thr c)) (cancel_pending w)) (thr c) (clock w) []
             = Some (res, t', now', steps) \<and>
           w' = after_admission r c res t' now' steps w"
proof -
  from assms obtain c where c: "cell w r = Some c"
    by (cases "cell w r") (simp_all add: with_lock_def acquire_def)
  from assms c obtain l where l: "lock_acquire (lock c) = Some l"
    by (cases "lock_acquire (lock c)") (simp_all add: with_lock_def acquire_def)
  let ?w1 = "w\<lparr>cells := (cells w)[r := c\<lparr>lock := l\<rparr>], trace := trace w @ [Acquire r]\<rparr>"
  have lt: "r < length (cells w)" using cell_bound [OF c] by simp
  have s1: "acquire r w = Some ?w1" by (rule acquire_Some [OF c l])
  have c1: "cell ?w1 r = Some (c\<lparr>lock := l\<rparr>)" using lt by (simp add: cell_def)
  obtain y where y: "admit_loop (wait_step (cls (thr c)) (cancel_pending w)) (thr c) (clock w) [] = Some y"
  proof (cases "admit_loop (wait_step (cls (thr c)) (cancel_pending w)) (thr c) (clock w) []")
    case None
    then have "thr_call r ?w1 = None" using c1 by (simp add: thr_call_def)
    with assms s1 show ?thesis by (simp add: with_lock_def)
  next
    case (Some y)
    then show ?thesis by (rule that)
  qed
  obtain res0 t' now' steps where y': "y = (res0, t', now', steps)" by (cases y)
  have "with_lock r (thr_call r) w = Some (res0, after_admission r c res0 t' now' steps w)"
    using c l y unfolding y' by (rule guarded_admission)
  with assms have "res = res0" and "w' = after_admission r c res0 t' now' steps w" by auto
  with c l y y' show ?thesis by blast
qed

lemma admission_ready:
  assumes c: "cell w r = Some c" and rdy: "ready c"
  shows "\<exists>res t' now' steps.
           with_lock r (thr_call r) w = Some (res, after_admission r c res t' now' steps w) \<and>
           admit_outcome (cls (thr c)) (cancel_pending w) (thr c) (clock w) (res, t', now', steps)"
proof -
  from rdy obtain l where l: "lock_acquire (lock c) = Some l"
    using lock_acquire_free [of "lock c"] by (auto simp: ready_def)
  from rdy have "wf_thr (thr c)" by (simp add: ready_def)
  then obtain y where y: "admit_loop (wait_step (cls (thr c)) (cancel_pending w)) (thr c) (clock w) [] = Some y"
    and o: "admit_outcome (cls (thr c)) (cancel_pending w) (thr c) (clock w) y"
    using admit_total by blast
  obtain res t' now' steps where y': "y = (res, t', now', steps)" by (cases y)
  have "with_lock r (thr_call r) w = Some (res, after_admission r c res t' now' steps w)"
    using c l y unfolding y' by (rule guarded_admission)
  with o y' show ?thesis by blast
qed

lemma decorator_invalid:
  "n \<le> 0 \<or> p \<le> 0 \<Longrightarrow> decorator n p rot func w = (Inl ConfigurationError, w)"
  by (auto simp: decorator_def Throttle_def AsyncThrottle_def new_throttle_def)

lemma decorator_valid:
  assumes "0 < n" and "0 < p"
  shows "decorator n p rot func w =
           (Inr \<lparr>w_name = f_name func, w_doc = f_doc func, w_wrapped = Some func,
                 w_iscoroutinefunction = f_iscoroutinefunction func,
                 w_cell = length (cells w),
                 w_call = (if f_iscoroutinefunction func
                           then async_wrapper func (length (cells w))
                           else sync_wrapper func (length (cells w)))\<rparr>,
            w\<lparr>cells := cells w @ [new_cell (f_iscoroutinefunction func) n p rot]\<rparr>)"
  using assms
  by (simp add: decorator_def Throttle_def AsyncThrottle_def new_throttle_def alloc_def
      wraps_def new_cell_def)

lemma decorator_Inr:
  assumes "decorator n p rot func w = (Inr wr, w')"
  shows "0 < n \<and> 0 < p \<and>
         wr = \<lparr>w_name = f_name func, w_doc = f_doc func, w_wrapped = Some func,
                 w_iscoroutinefunction = f_iscoroutinefunction func,
                 w_cell = length (cells w),
                 w_call = (if f_iscoroutinefunction func
                           then async_wrapper func (length (cells w))
                           else sync_wrapper func (length (cells w)))\<rparr> \<and>
         w' = w\<lparr>cells := cells w @ [new_cell (f_iscoroutinefunction func) n p rot]\<rparr>"
proof (cases "n \<le> 0 \<or> p \<le> 0")
  case True
  have "decorator n p rot func w = (Inl ConfigurationError, w)"
    using True by (rule decorator_invalid)
  with assms show ?thesis by simp
next
  case False
  then have "0 < n" and "0 < p" by simp_all
  then have "decorator n p rot func w =
           (Inr \<lparr>w_name = f_name func, w_doc = f_doc func, w_wrapped = Some func,
                 w_iscoroutinefunction = f_iscoroutinefunction func,
                 w_cell = length (cells w),
                 w_call = (if f_iscoroutinefunction func
                           then async_wrapper func (length (cells w))
                           else sync_wrapper func (length (cells w)))\<rparr>,
            w\<lparr>cells := cells w @ [new_cell (f_iscoroutinefunction func) n p rot]\<rparr>)"
    by (rule decorator_valid)
  with assms False show ?thesis by simp
qed

lemma decorated_call:
  assumes "decorator n p rot func w0 = (Inr wr, w1)"
  shows "w_call wr args w =
           (case with_lock (w_cell wr) (thr_call (w_cell wr)) w of
              None \<Rightarrow> None
            | Some (Inl e, w') \<Rightarrow> Some (Inl e, w')
            | Some (Inr _, w') \<Rightarrow> Some (invoke func args w'))"
  using decorator_Inr [OF assms] by (simp add: async_wrapper_def sync_wrapper_def)

lemma ready_new_cell: "0 < n \<Longrightarrow> 0 < p \<Longrightarrow> ready (new_cell co n p rot)"
  by (simp add: ready_def new_cell_def wf_thr_def)

text \<open>
  Claim C10. For every function that the decorator wraps, the wrapper it returns carries
  the name and the docstring of the original function and refers to it as its wrapped
  function, as \<^verbatim>\<open>functools.wraps\<close> arranges.
\<close>

theorem wrapper_carries_metadata:
  assumes "decorator n p rot func w = (Inr wr, w')"
  shows "w_name wr = f_name func \<and> w_doc wr = f_doc func \<and> w_wrapped wr = Some func"
  using decorator_Inr [OF assms] by simp

theorem wrapper_carries_metadata_witness:
  "\<exists>wr w'. decorator 1 10 False example_func world0 = (Inr wr, w') \<and>
      w_name wr = ''work'' \<and> w_doc wr = Some ''does the work'' \<and> w_wrapped wr = Some example_func"
proof -
  obtain wr w' where d: "decorator 1 10 False example_func world0 = (Inr wr, w')"
    by (simp add: decorator_valid)
  from wrapper_carries_metadata [OF d] d show ?thesis
    by (simp add: example_func_def)
qed

lemma cell_new_cell: "cell (w\<lparr>cells := cells w @ [c]\<rparr>) (length (cells w)) = Some c"
  by (simp add: cell_def)

text \<open>
  Claim C8. The decorator keeps the nature of the callable: the wrapper of a coroutine
  function is a coroutine function guarded by the suspending throttle and the
  asynchronous lock, the wrapper of any other function is a plain function guarded by
  the blocking throttle and the thread lock; the two are never mixed.
\<close>

theorem decorator_preserves_nature:
  assumes "decorator n p rot func w = (Inr wr, w')"
  shows "w_iscoroutinefunction wr = f_iscoroutinefunction func \<and>
         w_call wr = (if f_iscoroutinefunction func then async_wrapper func (w_cell wr)
                      else sync_wrapper func (w_cell wr)) \<and>
         (\<exists>c. cell w' (w_cell wr) = Some c \<and>
              cls (thr c) = (if w_iscoroutinefunction wr then Suspending else Blocking) \<and>
              lk_class (lock c) = (if w_iscoroutinefunction wr then AsyncLock else RLock))"
  using decorator_Inr [OF assms] by (simp add: cell_new_cell new_cell_def)

theorem decorator_preserves_nature_witness:
  "\<exists>wr w' c. decorator 2 5 True example_coro world0 = (Inr wr, w') \<and>
      w_iscoroutinefunction wr \<and> w_call wr = async_wrapper example_coro 0 \<and>
      cell w' 0 = Some c \<and> cls (thr c) = Suspending \<and> lk_class (lock c) = AsyncLock"
proof -
  obtain wr w' where d: "decorator 2 5 True example_coro world0 = (Inr wr, w')"
    by (simp add: decorator_valid)
  have co: "f_iscoroutinefunction example_coro"
    by (simp add: example_coro_def)
  have r: "w_cell wr = 0"
    using decorator_Inr [OF d] by (simp add: world0_def)
  from decorator_preserves_nature [OF d] d co r show ?thesis
    by auto
qed

text \<open>
  Claim C1, as the code has it. The variant is chosen when the decorator is applied to
  the guarded operation, from what \<^verbatim>\<open>asyncio.iscoroutinefunction\<close> answers for it: a
  coroutine function gets the suspending throttle and the asynchronous lock, any other
  callable the blocking throttle and the thread lock, whatever arguments the caller gave
  to \<^verbatim>\<open>throttle\<close>.
\<close>

theorem variant_chosen_by_inspection:
  assumes "throttle n p rot func w = (Inr wr, w')"
  shows "\<exists>c. cell w' (w_cell wr) = Some c \<and>
           cls (thr c) = (if f_iscoroutinefunction func then Suspending else Blocking) \<and>
           lk_class (lock c) = (if f_iscoroutinefunction func then AsyncLock else RLock) \<and>
           (cls (thr c) = Suspending \<longleftrightarrow> f_iscoroutinefunction func) \<and>
           (cls (thr c) = Blocking \<longleftrightarrow> \<not> f_iscoroutinefunction func) \<and>
           (lk_class (lock c) = AsyncLock \<longleftrightarrow> f_iscoroutinefunction func) \<and>
           (lk_class (lock c) = RLock \<longleftrightarrow> \<not> f_iscoroutinefunction func)"
proof -
  from assms have d: "decorator n p rot func w = (Inr wr, w')"
    by (simp add: throttle_def)
  show ?thesis
    using decorator_Inr [OF d] by (simp add: cell_new_cell new_cell_def)
qed

theorem variant_chosen_by_inspection_witness:
  "(\<exists>wr w' c. throttle 1 10 False example_func world0 = (Inr wr, w') \<and>
      cell w' (w_cell wr) = Some c \<and> cls (thr c) = Blocking \<and> lk_class (lock c) = RLock) \<and>
   (\<exists>wr w' c. throttle 1 10 False example_coro world0 = (Inr wr, w') \<and>
      cell w' (w_cell wr) = Some c \<and> cls (thr c) = Suspending \<and> lk_class (lock c) = AsyncLock)"
proof -
  obtain wr w' where d: "throttle 1 10 False example_func world0 = (Inr wr, w')"
    by (simp add: throttle_def decorator_valid)
  obtain wr2 w2 where d2: "throttle 1 10 False example_coro world0 = (Inr wr2, w2)"
    by (simp add: throttle_def decorator_valid)
  have f: "\<not> f_iscoroutinefunction example_func"
    by (simp add: example_func_def)
  have g: "f_iscoroutinefunction example_coro"
    by (simp add: example_coro_def)
  from variant_chosen_by_inspection [OF d] d f
  have a: "\<exists>wr w' c. throttle 1 10 False example_func world0 = (Inr wr, w') \<and>
      cell w' (w_cell wr) = Some c \<and> cls (thr c) = Blocking \<and> lk_class (lock c) = RLock"
    by auto
  from variant_chosen_by_inspection [OF d2] d2 g
  have b: "\<exists>wr w' c. throttle 1 10 False example_coro world0 = (Inr wr, w') \<and>
      cell w' (w_cell wr) = Some c \<and> cls (thr c) = Suspending \<and> lk_class (lock c) = AsyncLock"
    by auto
  from a b show ?thesis by blast
qed

text \<open>
  Claim C1, as stated, fails: with the very same arguments to \<^verbatim>\<open>throttle\<close> a plain
  function is given the blocking variant and a coroutine function the suspending one,
  so the variant is selected by inspecting the guarded operation and not by the caller.
\<close>

theorem variant_not_chosen_by_caller:
  "map cls (map thr (cells (snd (throttle 1 10 False example_func world0)))) = [Blocking] \<and>
   map cls (map thr (cells (snd (throttle 1 10 False example_coro world0)))) = [Suspending]"
  by (simp add: throttle_def decorator_valid new_cell_def example_func_def example_coro_def
      world0_def)

lemma admit_loop_no_configuration_error:
  assumes run: "admit_loop sleep t now steps = Some y"
    and sl: "\<forall>d m. sleep d m \<noteq> Inl ConfigurationError"
  shows "fst y \<noteq> Inl ConfigurationError"
proof -
  have "(\<forall>d m. sleep d m \<noteq> Inl ConfigurationError) \<longrightarrow> fst y \<noteq> Inl ConfigurationError"
  proof (rule admit_loop.raw_induct
      [where P = "\<lambda>sleep t now steps y.
         (\<forall>d m. sleep d m \<noteq> Inl ConfigurationError) \<longrightarrow> fst y \<noteq> Inl ConfigurationError",
       OF _ run], goal_cases)
    case (1 loop sleep t now steps y)
    show ?case
    proof
      assume sl: "\<forall>d m. sleep d m \<noteq> Inl ConfigurationError"
      have de: "fst (decide t now) \<noteq> Inl ConfigurationError"
        by (simp add: decide_def Let_def split: list.splits)
      show "fst y \<noteq> Inl ConfigurationError"
      proof (cases "decide t now")
        case (Pair dres t1)
        show ?thesis
        proof (cases dres)
          case (Inl e)
          with 1(2) Pair de show ?thesis by auto
        next
          case (Inr dec)
          show ?thesis
          proof (cases dec)
            case Allow
            with 1(2) Pair Inr show ?thesis by auto
          next
            case Reject
            with 1(2) Pair Inr show ?thesis by auto
          next
            case (WaitFor d)
            show ?thesis
            proof (cases "sleep d now")
              case (Inl e)
              with sl have "e \<noteq> ConfigurationError" by metis
              with 1(2) Pair Inr WaitFor Inl show ?thesis by auto
            next
              case r: (Inr now')
              from 1(2) Pair Inr WaitFor r
              have "loop sleep t1 now' (steps @ [Decided (WaitFor d), Slept d]) = Some y"
                by simp
              from 1(1) [OF this] sl show ?thesis by simp
            qed
          qed
        qed
      qed
    qed
  qed
  with sl show ?thesis by simp
qed

lemma wait_step_error: "wait_step k cancel d m = Inl e \<Longrightarrow> e = CancelledError"
  by (cases k) (simp_all add: time_sleep_def asyncio_sleep_def split: if_splits)

lemma thr_call_no_configuration_error:
  "thr_call r w \<noteq> Some (Inl ConfigurationError, w')"
proof
  assume a: "thr_call r w = Some (Inl ConfigurationError, w')"
  then obtain c where c: "cell w r = Some c"
    by (cases "cell w r") (simp_all add: thr_call_def)
  from a c obtain t' now' steps where
    "admit_loop (wait_step (cls (thr c)) (cancel_pending w)) (thr c) (clock w) []
       = Some (Inl ConfigurationError, t', now', steps)"
    by (auto simp: thr_call_def split: option.splits)
  moreover have "\<forall>d m. wait_step (cls (thr c)) (cancel_pending w) d m \<noteq> Inl ConfigurationError"
    using wait_step_error by fastforce
  ultimately show False
    using admit_loop_no_configuration_error by fastforce
qed

text \<open>
  Claim C3. A throttle with \<open>calls \<le> 0\<close> or \<open>period \<le> 0\<close> fails with the
  configuration error when it is constructed, that is when the decorator is applied:
  no wrapper comes back and the world is untouched, so no call has been attempted. All
  other configurations construct, and an admission attempt never raises the
  configuration error.
\<close>

theorem invalid_configuration_fails_at_construction:
  "(n \<le> 0 \<or> p \<le> 0 \<longrightarrow> throttle n p rot func w = (Inl ConfigurationError, w)) \<and>
   (0 < n \<and> 0 < p \<longrightarrow> (\<exists>wr w'. throttle n p rot func w = (Inr wr, w'))) \<and>
   thr_call r v \<noteq> Some (Inl ConfigurationError, v')"
  by (simp add: throttle_def decorator_invalid decorator_valid thr_call_no_configuration_error)

theorem invalid_configuration_fails_at_construction_witness:
  "throttle 0 10 False example_func world0 = (Inl ConfigurationError, world0) \<and>
   throttle 3 (- 1) True example_coro world0 = (Inl ConfigurationError, world0) \<and>
   (\<exists>wr w'. throttle 3 10 False example_func world0 = (Inr wr, w'))"
  using invalid_configuration_fails_at_construction [of 0 10 False example_func world0 0 world0 world0]
    invalid_configuration_fails_at_construction [of 3 "- 1" True example_coro world0 0 world0 world0]
    invalid_configuration_fails_at_construction [of 3 10 False example_func world0 0 world0 world0]
  by simp

lemma invoke_fields:
  "user (snd (invoke func args w)) = snd (f_body func args (user w)) \<and>
   fst (invoke func args w) = fst (f_body func args (user w)) \<and>
   cells (snd (invoke func args w)) = cells w \<and>
   clock (snd (invoke func args w)) = clock w \<and>
   trace (snd (invoke func args w)) = trace w @ [Invoke (f_name func)]"
  by (simp add: invoke_def emit_def split: prod.splits)

lemma decorated_call_raises:
  assumes "decorator n p rot func w0 = (Inr wr, w1)"
    and "with_lock (w_cell wr) (thr_call (w_cell wr)) w = Some (Inl e, w')"
  shows "w_call wr args w = Some (Inl e, w')"
  using assms(2) by (simp add: decorated_call [OF assms(1)])

lemma decorated_call_admitted:
  assumes "decorator n p rot func w0 = (Inr wr, w1)"
    and "with_lock (w_cell wr) (thr_call (w_cell wr)) w = Some (Inr (), w')"
  shows "w_call wr args w = Some (invoke func args w')"
  using assms(2) by (simp add: decorated_call [OF assms(1)])

lemma decorated_call_returns:
  assumes d: "decorator n p rot func w0 = (Inr wr, w1)"
    and c: "cell w (w_cell wr) = Some c" and rdy: "ready c"
  shows "\<exists>res w'. w_call wr args w = Some (res, w')"
proof -
  obtain res t' now' steps where
    g: "with_lock (w_cell wr) (thr_call (w_cell wr)) w
          = Some (res, after_admission (w_cell wr) c res t' now' steps w)"
    using admission_ready [OF c rdy] by blast
  show ?thesis
  proof (cases res)
    case (Inl e)
    have "w_call wr args w = Some (Inl e, after_admission (w_cell wr) c res t' now' steps w)"
      using d g unfolding Inl by (rule decorated_call_raises)
    then show ?thesis by blast
  next
    case (Inr u)
    then have res: "res = Inr ()" by simp
    have "w_call wr args w
            = Some (invoke func args (after_admission (w_cell wr) c res t' now' steps w))"
      using d g unfolding res by (rule decorated_call_admitted)
    then show ?thesis by (metis surj_pair)
  qed
qed

text \<open>
  Claim C4. When \<^verbatim>\<open>raise_on_throttle\<close> is set and the sliding window is full, a call of
  the wrapped operation fails with the throttle exception, and the guarded operation is
  not executed: the caller's state is as before and the call leaves no invocation in
  the trace.
\<close>

theorem reject_policy_never_runs_the_operation:
  assumes d: "decorator n p rot func w0 = (Inr wr, w1)"
    and c: "cell w (w_cell wr) = Some c" and rdy: "ready c"
    and r: "raise_on_throttle (thr c)" and full: "window_full (thr c) (clock w)"
  shows "\<exists>w'. w_call wr args w = Some (Inl ThrottleException, w') \<and> user w' = user w \<and>
           trace w' = trace w @ [Acquire (w_cell wr), AdmitStep (w_cell wr) (Decided Reject),
                                 Release (w_cell wr)]"
proof -
  obtain res t' now' steps where
    g: "with_lock (w_cell wr) (thr_call (w_cell wr)) w
          = Some (res, after_admission (w_cell wr) c res t' now' steps w)"
    and o: "admit_outcome (cls (thr c)) (cancel_pending w) (thr c) (clock w) (res, t', now', steps)"
    using admission_ready [OF c rdy] by blast
  from o r full have res: "res = Inl ThrottleException" and st: "steps = [Decided Reject]"
    by (simp_all add: admit_outcome_def)
  have "w_call wr args w =
          Some (Inl ThrottleException, after_admission (w_cell wr) c res t' now' steps w)"
    using d g unfolding res by (rule decorated_call_raises)
  then show ?thesis
    by (simp add: after_admission_def st)
qed


lemma ready_example_cell: "length h \<le> 1 \<Longrightarrow> ready (example_cell k rot h)"
  by (simp add: ready_def wf_thr_def example_cell_def)

theorem reject_policy_never_runs_the_operation_witness:
  "\<exists>wr w1 w'. decorator 1 10 True example_func world0 = (Inr wr, w1) \<and>
      w_call wr 7 (world0\<lparr>clock := 3, cells := [example_cell Blocking True [0]]\<rparr>)
        = Some (Inl ThrottleException, w') \<and>
      user w' = [] \<and>
      trace w' = [Acquire 0, AdmitStep 0 (Decided Reject), Release 0]"
proof -
  let ?w = "world0\<lparr>clock := 3, cells := [example_cell Blocking True [0]]\<rparr>"
  obtain wr w1 where d: "decorator 1 10 True example_func world0 = (Inr wr, w1)"
    by (simp add: decorator_valid)
  have r: "w_cell wr = 0"
    using decorator_Inr [OF d] by (simp add: world0_def)
  have c: "cell ?w (w_cell wr) = Some (example_cell Blocking True [0])"
    by (simp add: r cell_def)
  have rdy: "ready (example_cell Blocking True [0])"
    by (simp add: ready_example_cell)
  have rot: "raise_on_throttle (thr (example_cell Blocking True [0]))"
    by (simp add: example_cell_def)
  have full: "window_full (thr (example_cell Blocking True [0])) (clock ?w)"
    by (simp add: window_full_def example_cell_def evict_def)
  from reject_policy_never_runs_the_operation [OF d c rdy rot full, of 7] d r
  show ?thesis
    by (auto simp: world0_def)
qed

lemma admit_outcome_steps:
  assumes "admit_outcome k cancel t now (res, t', now', steps)"
  shows "steps \<noteq> [] \<and> (res = Inr () \<longleftrightarrow> last steps = Decided Allow) \<and>
         (res = Inr () \<or> res = Inl ThrottleException \<or> res = Inl CancelledError)"
  using assms by (auto simp: admit_outcome_def split: if_splits)

lemma after_admission_fields:
  "user (after_admission r c res t' now' steps w) = user w \<and>
   cells (after_admission r c res t' now' steps w) = (cells w)[r := c\<lparr>thr := t'\<rparr>] \<and>
   trace (after_admission r c res t' now' steps w)
     = trace w @ Acquire r # map (AdmitStep r) steps @ [Release r]"
  by (simp add: after_admission_def)

lemma guarded_admission_user:
  assumes "with_lock r (thr_call r) w = Some (res, w')"
  shows "user w' = user w"
  using guarded_admission_inv [OF assms] by (auto simp: after_admission_fields)

lemma lock_acquire_depth:
  "depth l0 = 0 \<Longrightarrow> lock_acquire l0 = Some l \<Longrightarrow> depth l = 1"
  by (auto simp: lock_acquire_def split: lock_class.splits)

lemma lock_acquire_class:
  "lock_acquire l0 = Some l \<Longrightarrow> lk_class l = lk_class l0"
  by (auto simp: lock_acquire_def split: lock_class.splits if_splits)

text \<open>
  The three stages of \<^verbatim>\<open>with lock: thr.call()\<close>: the world after the acquisition, the
  world after the admission, and the world after the release.
\<close>

lemma guarded_admission_stages:
  assumes c: "cell w r = Some c" and l: "lock_acquire (lock c) = Some l"
    and a: "admit_loop (wait_step (cls (thr c)) (cancel_pending w)) (thr c) (clock w) []
              = Some (res, t', now', steps)"
  shows "\<exists>wq wb. acquire r w = Some wq \<and> cell wq r = Some (c\<lparr>lock := l\<rparr>) \<and>
           thr_call r wq = Some (res, wb) \<and> cell wb r = Some (c\<lparr>lock := l, thr := t'\<rparr>) \<and>
           release r wb = Some (Inr (), after_admission r c res t' now' steps w)"
proof -
  let ?w1 = "w\<lparr>cells := (cells w)[r := c\<lparr>lock := l\<rparr>], trace := trace w @ [Acquire r]\<rparr>"
  let ?c1 = "c\<lparr>lock := l\<rparr>"
  have lt: "r < length (cells w)" using cell_bound [OF c] by simp
  have c1: "cell ?w1 r = Some ?c1" using lt by (simp add: cell_def)
  have a1: "admit_loop (wait_step (cls (thr ?c1)) (cancel_pending ?w1)) (thr ?c1) (clock ?w1) []
              = Some (res, t', now', steps)"
    using a by simp
  let ?w2 = "?w1\<lparr>clock := now',
                  cancel_pending := (cancel_pending ?w1 \<and> res \<noteq> Inl CancelledError),
                  cells := (cells ?w1)[r := ?c1\<lparr>thr := t'\<rparr>],
                  trace := trace ?w1 @ map (AdmitStep r) steps\<rparr>"
  let ?c2 = "?c1\<lparr>thr := t'\<rparr>"
  have s1: "acquire r w = Some ?w1" by (rule acquire_Some [OF c l])
  have s2: "thr_call r ?w1 = Some (res, ?w2)" by (rule thr_call_Some [OF c1 a1])
  have c2: "cell ?w2 r = Some ?c2" using lt by (simp add: cell_def)
  have r2: "lock_release (lock ?c2) = Inr (lock c)"
    using lock_acquire_release [OF l] by simp
  have s3: "release r ?w2 =
              Some (Inr (), ?w2\<lparr>cells := (cells ?w2)[r := ?c2\<lparr>lock := lock c\<rparr>],
                               trace := trace ?w2 @ [Release r]\<rparr>)"
    by (rule release_Some [OF c2 r2])
  have e: "?w2\<lparr>cells := (cells ?w2)[r := ?c2\<lparr>lock := lock c\<rparr>],
               trace := trace ?w2 @ [Release r]\<rparr> = after_admission r c res t' now' steps w"
    by (simp add: after_admission_def)
  have c2': "cell ?w2 r = Some (c\<lparr>lock := l, thr := t'\<rparr>)"
    using c2 by simp
  from s1 c1 s2 c2' s3 [unfolded e] show ?thesis by blast
qed

text \<open>
  Claim C5. Every invocation of a wrapped operation acquires the lock, runs the admission
  to its end while the lock is held, releases the lock, and only then invokes the guarded
  operation: the lock is held when the admission starts and when it ends, it is free in
  the world in which the guarded operation is called, and in the trace of the call the
  invocation, if any, comes after the release.
\<close>

theorem wrapper_control_flow:
  assumes d: "decorator n p rot func w0 = (Inr wr, w1)"
    and c: "cell w (w_cell wr) = Some c" and rdy: "ready c"
  shows "\<exists>wq cq ares wb cb wa ca res w' steps.
           acquire (w_cell wr) w = Some wq \<and>
           cell wq (w_cell wr) = Some cq \<and> depth (lock cq) = 1 \<and>
           thr_call (w_cell wr) wq = Some (ares, wb) \<and>
           cell wb (w_cell wr) = Some cb \<and> depth (lock cb) = 1 \<and>
           release (w_cell wr) wb = Some (Inr (), wa) \<and>
           cell wa (w_cell wr) = Some ca \<and> depth (lock ca) = 0 \<and>
           w_call wr args w = Some (res, w') \<and>
           (case ares of Inl e \<Rightarrow> res = Inl e \<and> w' = wa
                       | Inr _ \<Rightarrow> (res, w') = invoke func args wa) \<and>
           steps \<noteq> [] \<and> (ares = Inr () \<longleftrightarrow> last steps = Decided Allow) \<and>
           trace w' = trace w @ Acquire (w_cell wr) # map (AdmitStep (w_cell wr)) steps
                        @ Release (w_cell wr)
                          # (if last steps = Decided Allow then [Invoke (f_name func)] else []) \<and>
           (last steps \<noteq> Decided Allow \<longrightarrow> (\<exists>e. res = Inl e))"
proof -
  let ?r = "w_cell wr"
  from rdy have d0: "depth (lock c) = 0" and wft: "wf_thr (thr c)"
    by (simp_all add: ready_def)
  obtain l where l: "lock_acquire (lock c) = Some l"
    using lock_acquire_free [OF d0] by blast
  have d1: "depth l = 1" using d0 l by (rule lock_acquire_depth)
  obtain y where y: "admit_loop (wait_step (cls (thr c)) (cancel_pending w)) (thr c) (clock w) []
                       = Some y"
    and o: "admit_outcome (cls (thr c)) (cancel_pending w) (thr c) (clock w) y"
    using admit_total [OF wft] by blast
  obtain ares t' now' steps where y': "y = (ares, t', now', steps)" by (cases y)
  let ?wa = "after_admission ?r c ares t' now' steps w"
  obtain wq wb where acq: "acquire ?r w = Some wq"
    and cq: "cell wq ?r = Some (c\<lparr>lock := l\<rparr>)"
    and adm: "thr_call ?r wq = Some (ares, wb)"
    and cb: "cell wb ?r = Some (c\<lparr>lock := l, thr := t'\<rparr>)"
    and rel: "release ?r wb = Some (Inr (), ?wa)"
    using guarded_admission_stages [OF c l y [unfolded y']] by blast
  have g: "with_lock ?r (thr_call ?r) w = Some (ares, ?wa)"
    using c l y [unfolded y'] by (rule guarded_admission)
  have lt: "?r < length (cells w)" using cell_bound [OF c] by simp
  have ca: "cell ?wa ?r = Some (c\<lparr>thr := t'\<rparr>)"
    using lt by (simp add: cell_def after_admission_fields)
  have tr: "trace ?wa = trace w @ Acquire ?r # map (AdmitStep ?r) steps @ [Release ?r]"
    by (simp add: after_admission_fields)
  note st = admit_outcome_steps [OF o [unfolded y']]
  have stages: "acquire ?r w = Some wq \<and>
           cell wq ?r = Some (c\<lparr>lock := l\<rparr>) \<and> depth (lock (c\<lparr>lock := l\<rparr>)) = 1 \<and>
           thr_call ?r wq = Some (ares, wb) \<and>
           cell wb ?r = Some (c\<lparr>lock := l, thr := t'\<rparr>) \<and>
           depth (lock (c\<lparr>lock := l, thr := t'\<rparr>)) = 1 \<and>
           release ?r wb = Some (Inr (), ?wa) \<and>
           cell ?wa ?r = Some (c\<lparr>thr := t'\<rparr>) \<and> depth (lock (c\<lparr>thr := t'\<rparr>)) = 0"
    using acq cq adm cb rel ca d0 d1 by simp
  show ?thesis
  proof (cases ares)
    case (Inl e)
    have call: "w_call wr args w = Some (Inl e, ?wa)"
      using d g unfolding Inl by (rule decorated_call_raises)
    have rest: "w_call wr args w = Some (Inl e, ?wa) \<and>
           (case ares of Inl e' \<Rightarrow> Inl e = (Inl e' :: exn + 'b) \<and> ?wa = ?wa
                       | Inr _ \<Rightarrow> (Inl e, ?wa) = invoke func args ?wa) \<and>
           steps \<noteq> [] \<and> (ares = Inr () \<longleftrightarrow> last steps = Decided Allow) \<and>
           trace ?wa = trace w @ Acquire ?r # map (AdmitStep ?r) steps
                        @ Release ?r
                          # (if last steps = Decided Allow then [Invoke (f_name func)] else []) \<and>
           (last steps \<noteq> Decided Allow \<longrightarrow> (\<exists>e'. (Inl e :: exn + 'b) = Inl e'))"
      using call st Inl tr by simp
    from stages rest show ?thesis by blast
  next
    case (Inr u)
    then have res: "ares = Inr ()" by simp
    have "w_call wr args w = Some (invoke func args ?wa)"
      using d g unfolding res by (rule decorated_call_admitted)
    then have call: "w_call wr args w
                       = Some (fst (invoke func args ?wa), snd (invoke func args ?wa))"
      by simp
    have "trace (snd (invoke func args ?wa)) = trace ?wa @ [Invoke (f_name func)]"
      by (simp add: invoke_fields)
    with call st res tr
    have rest: "w_call wr args w = Some (fst (invoke func args ?wa), snd (invoke func args ?wa)) \<and>
          (case ares of Inl e \<Rightarrow> fst (invoke func args ?wa) = Inl e \<and> snd (invoke func args ?wa) = ?wa
                       | Inr _ \<Rightarrow> (fst (invoke func args ?wa), snd (invoke func args ?wa))
                                    = invoke func args ?wa) \<and>
          steps \<noteq> [] \<and> (ares = Inr () \<longleftrightarrow> last steps = Decided Allow) \<and>
          trace (snd (invoke func args ?wa))
            = trace w @ Acquire ?r # map (AdmitStep ?r) steps
                @ Release ?r
                  # (if last steps = Decided Allow then [Invoke (f_name func)] else []) \<and>
          (last steps \<noteq> Decided Allow \<longrightarrow> (\<exists>e. fst (invoke func args ?wa) = Inl e))"
      by simp
    from stages rest show ?thesis by blast
  qed
qed


theorem wrapper_control_flow_witness:
  "\<exists>wr w1 res w' wa ca. decorator 1 10 False example_func world0 = (Inr wr, w1) \<and>
      w_call wr 7 (world0\<lparr>clock := 3, cells := [example_cell Blocking False [0]]\<rparr>)
        = Some (res, w') \<and>
      (res, w') = invoke example_func 7 wa \<and> cell wa 0 = Some ca \<and> depth (lock ca) = 0 \<and>
      trace w' = [Acquire 0, AdmitStep 0 (Decided (WaitFor 7)), AdmitStep 0 (Slept 7),
                  AdmitStep 0 (Decided Allow), Release 0, Invoke ''work'']"
proof -
  let ?w = "world0\<lparr>clock := 3, cells := [example_cell Blocking False [0]]\<rparr>"
  obtain wr w1 where d: "decorator 1 10 False example_func world0 = (Inr wr, w1)"
    by (simp add: decorator_valid)
  have r: "w_cell wr = 0"
    using decorator_Inr [OF d] by (simp add: world0_def)
  have c: "cell ?w (w_cell wr) = Some (example_cell Blocking False [0])"
    by (simp add: r cell_def)
  have rdy: "ready (example_cell Blocking False [0])"
    by (simp add: ready_example_cell)
  obtain wq cq ares wb cb wa ca res w' steps where
    "acquire (w_cell wr) ?w = Some wq" and "cell wq (w_cell wr) = Some cq"
    and "depth (lock cq) = 1" and "thr_call (w_cell wr) wq = Some (ares, wb)"
    and "cell wb (w_cell wr) = Some cb" and "depth (lock cb) = 1"
    and "release (w_cell wr) wb = Some (Inr (), wa)"
    and ca: "cell wa (w_cell wr) = Some ca" and free: "depth (lock ca) = 0"
    and call: "w_call wr 7 ?w = Some (res, w')"
    and inv: "case ares of Inl e \<Rightarrow> res = Inl e \<and> w' = wa
                         | Inr _ \<Rightarrow> (res, w') = invoke example_func 7 wa"
    using wrapper_control_flow [OF d c rdy, of 7]
    by (elim exE conjE) (rule that)
  have ev: "sync_wrapper example_func 0 7 ?w =
          Some (Inr 8, \<lparr>clock = 10, cancel_pending = False,
                        cells = [example_cell Blocking False [10]], user = [7],
                        trace = [Acquire 0, AdmitStep 0 (Decided (WaitFor 7)), AdmitStep 0 (Slept 7),
                                 AdmitStep 0 (Decided Allow), Release 0, Invoke ''work'']\<rparr>)"
    by (simp add: sync_wrapper_def with_lock_def acquire_def release_def thr_call_def cell_def
        set_cell_def emit_def lock_acquire_def lock_release_def admit_loop.simps decide_def
        evict_def time_sleep_def invoke_def example_cell_def example_func_def world0_def)
  have wc: "w_call wr = sync_wrapper example_func 0"
    using decorator_Inr [OF d] by (simp add: example_func_def world0_def)
  from call ev have res: "res = Inr 8"
    and tr: "trace w' = [Acquire 0, AdmitStep 0 (Decided (WaitFor 7)),
      AdmitStep 0 (Slept 7), AdmitStep 0 (Decided Allow), Release 0, Invoke ''work'']"
    by (auto simp: wc)
  have "(res, w') = invoke example_func 7 wa"
  proof (cases ares)
    case (Inl e)
    with inv res show ?thesis by simp
  next
    case (Inr u)
    with inv show ?thesis by simp
  qed
  with d call ca free tr show ?thesis
    unfolding r by blast
qed

text \<open>
  Claim C6. Once the admission has succeeded, the wrapper calls the guarded operation
  with exactly the arguments it received, on the caller's state as it was, and returns
  exactly what the operation returns: its value, or the exception it raised, unchanged.
\<close>

theorem wrapper_is_transparent:
  assumes d: "decorator n p rot func w0 = (Inr wr, w1)"
    and adm: "with_lock (w_cell wr) (thr_call (w_cell wr)) w = Some (Inr (), wa)"
  shows "\<exists>w'. w_call wr args w = Some (fst (f_body func args (user w)), w') \<and>
              user w' = snd (f_body func args (user w))"
proof -
  have u: "user wa = user w"
    using adm by (rule guarded_admission_user)
  have "w_call wr args w = Some (invoke func args wa)"
    using d adm by (rule decorated_call_admitted)
  then have "w_call wr args w = Some (fst (invoke func args wa), snd (invoke func args wa))"
    by simp
  then show ?thesis
    by (simp add: invoke_fields u)
qed

theorem wrapper_is_transparent_witness:
  "\<exists>wr w1 wa wb.
      decorator 1 10 False example_func world0 = (Inr wr, w1) \<and>
      w_call wr 5 w1 = Some (Inr 6, wa) \<and> user wa = [5] \<and>
      w_call wr (- 2) w1 = Some (Inl (UserError ''negative''), wb) \<and> user wb = []"
proof -
  obtain wr w1 where d: "decorator 1 10 False example_func world0 = (Inr wr, w1)"
    by (simp add: decorator_valid)
  have r: "w_cell wr = 0" and w1: "w1 = world0\<lparr>cells := [new_cell False 1 10 False]\<rparr>"
    using decorator_Inr [OF d] by (simp_all add: world0_def example_func_def)
  have adm: "with_lock (w_cell wr) (thr_call (w_cell wr)) w1 =
               Some (Inr (), \<lparr>clock = 0, cancel_pending = False,
                              cells = [example_cell Blocking False [0]], user = [],
                              trace = [Acquire 0, AdmitStep 0 (Decided Allow), Release 0]\<rparr>)"
    by (simp add: r w1 with_lock_def acquire_def release_def thr_call_def cell_def
        set_cell_def emit_def lock_acquire_def lock_release_def admit_loop.simps decide_def
        evict_def new_cell_def example_cell_def world0_def)
  have u: "user w1 = []" by (simp add: w1 world0_def)
  from wrapper_is_transparent [OF d adm, of 5] wrapper_is_transparent [OF d adm, of "- 2"] d
  show ?thesis
    by (auto simp: u example_func_def)
qed

lemma call_touches_own_cell:
  assumes d: "decorator n p rot func w0 = (Inr wr, w1)"
    and call: "w_call wr args v = Some (res, v')"
  shows "\<exists>c'. cell v (w_cell wr) \<noteq> None \<and> cells v' = (cells v)[w_cell wr := c']"
proof -
  let ?r = "w_cell wr"
  from call obtain ares wa where g: "with_lock ?r (thr_call ?r) v = Some (ares, wa)"
    by (cases "with_lock ?r (thr_call ?r) v") (auto simp: decorated_call [OF d])
  from guarded_admission_inv [OF g] obtain c t' where c: "cell v ?r = Some c"
    and wa: "cells wa = (cells v)[?r := c\<lparr>thr := t'\<rparr>]"
    by (auto simp: after_admission_fields)
  have "cells v' = cells wa"
  proof (cases ares)
    case (Inl e)
    with call g show ?thesis by (simp add: decorated_call [OF d])
  next
    case (Inr u)
    with call g have "(res, v') = invoke func args wa" by (simp add: decorated_call [OF d])
    then have "v' = snd (invoke func args wa)" by (metis snd_conv)
    then show ?thesis by (simp add: invoke_fields)
  qed
  with c wa show ?thesis by auto
qed

text \<open>A call leaves the cell of its wrapper ready for the next call.\<close>

lemma call_keeps_ready:
  assumes d: "decorator n p rot func w0 = (Inr wr, w1)"
    and c: "cell w (w_cell wr) = Some c" and rdy: "ready c"
    and call: "w_call wr args w = Some (res, w')"
  shows "\<exists>c'. cell w' (w_cell wr) = Some c' \<and> ready c'"
proof -
  let ?r = "w_cell wr"
  obtain ares t' now' steps where
    g: "with_lock ?r (thr_call ?r) w = Some (ares, after_admission ?r c ares t' now' steps w)"
    and o: "admit_outcome (cls (thr c)) (cancel_pending w) (thr c) (clock w)
              (ares, t', now', steps)"
    using admission_ready [OF c rdy] by blast
  let ?wa = "after_admission ?r c ares t' now' steps w"
  have lt: "?r < length (cells w)" using cell_bound [OF c] by simp
  have "cells w' = cells ?wa"
  proof (cases ares)
    case (Inl e)
    with call g show ?thesis by (simp add: decorated_call [OF d])
  next
    case (Inr u)
    with call g have "(res, w') = invoke func args ?wa" by (simp add: decorated_call [OF d])
    then have "w' = snd (invoke func args ?wa)" by (metis snd_conv)
    then show ?thesis by (simp add: invoke_fields)
  qed
  then have "cell w' ?r = Some (c\<lparr>thr := t'\<rparr>)"
    using lt by (simp add: cell_def after_admission_fields)
  moreover have "ready (c\<lparr>thr := t'\<rparr>)"
    using o rdy by (simp add: admit_outcome_def ready_def)
  ultimately show ?thesis by blast
qed

text \<open>
  Claim C7. Setting up a guarded operation allocates exactly one closure cell, holding
  one throttle with an empty history and one free lock. Every call of the wrapper works
  on that cell of the current world and on no other, and allocates nothing. Two
  guarded operations have different cells, so a call through one leaves the throttle
  and the lock of the other as they were.
\<close>

theorem guarded_operations_are_independent:
  assumes df: "decorator n p rot f w = (Inr wrf, w1)"
    and dg: "decorator n' p' rot' g w2 = (Inr wrg, w3)"
    and later: "length (cells w1) \<le> length (cells w2)"
  shows "(\<exists>c. cells w1 = cells w @ [c] \<and> w_cell wrf = length (cells w) \<and>
              history (thr c) = [] \<and> depth (lock c) = 0) \<and>
         w_cell wrf \<noteq> w_cell wrg \<and>
         (\<forall>args v res v'. w_call wrf args v = Some (res, v') \<longrightarrow>
            (\<exists>c'. cell v (w_cell wrf) \<noteq> None \<and> cells v' = (cells v)[w_cell wrf := c']) \<and>
            cells v' ! w_cell wrg = cells v ! w_cell wrg) \<and>
         (\<forall>args v res v'. w_call wrg args v = Some (res, v') \<longrightarrow>
            (\<exists>c'. cell v (w_cell wrg) \<noteq> None \<and> cells v' = (cells v)[w_cell wrg := c']) \<and>
            cells v' ! w_cell wrf = cells v ! w_cell wrf)"
proof -
  have a: "\<exists>c. cells w1 = cells w @ [c] \<and> w_cell wrf = length (cells w) \<and>
              history (thr c) = [] \<and> depth (lock c) = 0"
    using decorator_Inr [OF df] by (simp add: new_cell_def)
  have "w_cell wrf = length (cells w)" and "length (cells w1) = Suc (length (cells w))"
    using decorator_Inr [OF df] by simp_all
  moreover have "w_cell wrg = length (cells w2)"
    using decorator_Inr [OF dg] by simp
  ultimately have ne: "w_cell wrf \<noteq> w_cell wrg"
    using later by simp
  have b: "\<And>args v res v'. w_call wrf args v = Some (res, v') \<Longrightarrow>
            (\<exists>c'. cell v (w_cell wrf) \<noteq> None \<and> cells v' = (cells v)[w_cell wrf := c']) \<and>
            cells v' ! w_cell wrg = cells v ! w_cell wrg"
    using call_touches_own_cell [OF df] ne by (metis nth_list_update_neq)
  have c: "\<And>args v res v'. w_call wrg args v = Some (res, v') \<Longrightarrow>
            (\<exists>c'. cell v (w_cell wrg) \<noteq> None \<and> cells v' = (cells v)[w_cell wrg := c']) \<and>
            cells v' ! w_cell wrf = cells v ! w_cell wrf"
    using call_touches_own_cell [OF dg] ne by (metis nth_list_update_neq)
  from a ne b c show ?thesis by blast
qed

theorem guarded_operations_are_independent_witness:
  "\<exists>wrf w1 wrg w2 res v'.
      decorator 1 10 False example_func world0 = (Inr wrf, w1) \<and>
      decorator 2 5 True example_coro w1 = (Inr wrg, w2) \<and>
      w_cell wrf = 0 \<and> w_cell wrg = 1 \<and> length (cells w2) = 2 \<and>
      w_call wrf 5 w2 = Some (res, v') \<and>
      cells v' ! 1 = cells w2 ! 1 \<and> length (cells v') = 2"
proof -
  obtain wrf w1 where df: "decorator 1 10 False example_func world0 = (Inr wrf, w1)"
    by (simp add: decorator_valid)
  obtain wrg w2 where dg: "decorator 2 5 True example_coro w1 = (Inr wrg, w2)"
    by (simp add: decorator_valid)
  have later: "length (cells w1) \<le> length (cells w1)" by simp
  have rf: "w_cell wrf = 0" and w1: "w1 = world0\<lparr>cells := [new_cell False 1 10 False]\<rparr>"
    using decorator_Inr [OF df] by (simp_all add: world0_def example_func_def)
  have rg: "w_cell wrg = 1"
    and w2: "w2 = world0\<lparr>cells := [new_cell False 1 10 False, new_cell True 2 5 True]\<rparr>"
    using decorator_Inr [OF dg] by (simp_all add: w1 world0_def example_coro_def)
  have c: "cell w2 (w_cell wrf) = Some (new_cell False 1 10 False)"
    by (simp add: rf w2 cell_def)
  obtain res v' where call: "w_call wrf 5 w2 = Some (res, v')"
    using decorated_call_returns [OF df c ready_new_cell, of 5] by auto
  from guarded_operations_are_independent [OF df dg later] call
  have "(\<exists>c'. cells v' = (cells w2)[w_cell wrf := c']) \<and> cells v' ! w_cell wrg = cells w2 ! w_cell wrg"
    by blast
  then have "cells v' ! 1 = cells w2 ! 1 \<and> length (cells v') = 2"
    by (auto simp: rf rg w2)
  with df dg rf rg call show ?thesis
    by (auto simp: w2)
qed

lemma acquire_inv:
  assumes "acquire r w = Some wq"
  shows "\<exists>c l. cell w r = Some c \<and> lock_acquire (lock c) = Some l \<and>
           wq = w\<lparr>cells := (cells w)[r := c\<lparr>lock := l\<rparr>], trace := trace w @ [Acquire r]\<rparr>"
  using assms by (auto simp: acquire_def set_cell_def emit_def split: option.splits)

lemma thr_call_inv:
  assumes "thr_call r w = Some (res, wa)"
  shows "\<exists>c t' now' steps. cell w r = Some c \<and>
           admit_loop (wait_step (cls (thr c)) (cancel_pending w)) (thr c) (clock w) []
             = Some (res, t', now', steps) \<and>
           trace wa = trace w @ map (AdmitStep r) steps"
  using assms by (auto simp: thr_call_def set_cell_def emit_def split: option.splits)

text \<open>
  Claim C9. If the admission raises inside the \<^verbatim>\<open>with\<close> block (the throttle exception,
  or the cancellation of a suspended wait), the wrapper raises the same exception after
  the lock has been released: the release is the last event of the call, the lock is in
  the state it had before the call, and it can be acquired again.
\<close>

theorem lock_released_when_admission_raises:
  assumes d: "decorator n p rot func w0 = (Inr wr, w1)"
    and acq: "acquire (w_cell wr) w = Some wq"
    and adm: "thr_call (w_cell wr) wq = Some (Inl e, wa)"
  shows "\<exists>w'. w_call wr args w = Some (Inl e, w') \<and>
           trace w' = trace wa @ [Release (w_cell wr)] \<and>
           map_option lock (cell w' (w_cell wr)) = map_option lock (cell w (w_cell wr)) \<and>
           acquire (w_cell wr) w' \<noteq> None"
proof -
  let ?r = "w_cell wr"
  from acquire_inv [OF acq] obtain c l where c: "cell w ?r = Some c"
    and l: "lock_acquire (lock c) = Some l"
    and wq: "wq = w\<lparr>cells := (cells w)[?r := c\<lparr>lock := l\<rparr>], trace := trace w @ [Acquire ?r]\<rparr>"
    by blast
  have lt: "?r < length (cells w)" using cell_bound [OF c] by simp
  have cq: "cell wq ?r = Some (c\<lparr>lock := l\<rparr>)"
    using lt by (simp add: wq cell_def)
  from thr_call_inv [OF adm] cq obtain t' now' steps where
    a: "admit_loop (wait_step (cls (thr c)) (cancel_pending w)) (thr c) (clock w) []
          = Some (Inl e, t', now', steps)"
    and ta: "trace wa = trace wq @ map (AdmitStep ?r) steps"
    by (auto simp: wq)
  let ?w' = "after_admission ?r c (Inl e) t' now' steps w"
  have g: "with_lock ?r (thr_call ?r) w = Some (Inl e, ?w')"
    using c l a by (rule guarded_admission)
  have call: "w_call wr args w = Some (Inl e, ?w')"
    using d g by (rule decorated_call_raises)
  have tr: "trace ?w' = trace wa @ [Release ?r]"
    by (simp add: after_admission_fields ta wq)
  have c': "cell ?w' ?r = Some (c\<lparr>thr := t'\<rparr>)"
    using lt by (simp add: cell_def after_admission_fields)
  have lk: "map_option lock (cell ?w' ?r) = map_option lock (cell w ?r)"
    by (simp add: c c')
  have "lock_acquire (lock (c\<lparr>thr := t'\<rparr>)) = Some l" using l by simp
  with c' have "acquire ?r ?w' \<noteq> None"
    by (simp add: acquire_def)
  with call tr lk show ?thesis by blast
qed

theorem lock_released_when_admission_raises_witness:
  "\<exists>wr w1 wq wa w'.
      decorator 1 10 False example_coro world0 = (Inr wr, w1) \<and>
      acquire 0 (world0\<lparr>clock := 3, cancel_pending := True,
                        cells := [example_cell Suspending False [0]]\<rparr>) = Some wq \<and>
      thr_call 0 wq = Some (Inl CancelledError, wa) \<and>
      w_call wr 7 (world0\<lparr>clock := 3, cancel_pending := True,
                          cells := [example_cell Suspending False [0]]\<rparr>)
        = Some (Inl CancelledError, w') \<and>
      trace w' = [Acquire 0, AdmitStep 0 (Decided (WaitFor 7)), Release 0] \<and>
      cells w' = [example_cell Suspending False [0]] \<and>
      acquire 0 w' \<noteq> None"
proof -
  let ?w = "world0\<lparr>clock := 3, cancel_pending := True,
                    cells := [example_cell Suspending False [0]]\<rparr>"
  let ?wq = "\<lparr>clock = 3, cancel_pending = True,
              cells = [(example_cell Suspending False [0])\<lparr>lock := \<lparr>lk_class = AsyncLock, depth = 1\<rparr>\<rparr>],
              user = [] :: int list, trace = [Acquire 0]\<rparr>"
  let ?wa = "\<lparr>clock = 3, cancel_pending = False,
              cells = [(example_cell Suspending False [0])\<lparr>lock := \<lparr>lk_class = AsyncLock, depth = 1\<rparr>\<rparr>],
              user = [] :: int list, trace = [Acquire 0, AdmitStep 0 (Decided (WaitFor 7))]\<rparr>"
  obtain wr w1 where d: "decorator 1 10 False example_coro world0 = (Inr wr, w1)"
    by (simp add: decorator_valid)
  have r: "w_cell wr = 0"
    using decorator_Inr [OF d] by (simp add: world0_def)
  have acq: "acquire (w_cell wr) ?w = Some ?wq"
    by (simp add: r acquire_def cell_def set_cell_def emit_def lock_acquire_def
        example_cell_def world0_def)
  have adm: "thr_call (w_cell wr) ?wq = Some (Inl CancelledError, ?wa)"
    by (simp add: r thr_call_def cell_def set_cell_def emit_def admit_loop.simps decide_def
        evict_def asyncio_sleep_def example_cell_def)
  obtain w' where call: "w_call wr 7 ?w = Some (Inl CancelledError, w')"
    and tr: "trace w' = trace ?wa @ [Release (w_cell wr)]"
    and lk: "map_option lock (cell w' (w_cell wr)) = map_option lock (cell ?w (w_cell wr))"
    and again: "acquire (w_cell wr) w' \<noteq> None"
    using lock_released_when_admission_raises [OF d acq adm, of 7] by blast
  have ev: "async_wrapper example_coro 0 7 ?w =
          Some (Inl CancelledError,
                \<lparr>clock = 3, cancel_pending = False,
                   cells = [example_cell Suspending False [0]], user = [],
                   trace = [Acquire 0, AdmitStep 0 (Decided (WaitFor 7)), Release 0]\<rparr>)"
    by (simp add: async_wrapper_def with_lock_def acquire_def release_def thr_call_def cell_def
        set_cell_def emit_def lock_acquire_def lock_release_def admit_loop.simps decide_def
        evict_def asyncio_sleep_def example_cell_def world0_def)
  have wc: "w_call wr = async_wrapper example_coro 0"
    using decorator_Inr [OF d] by (simp add: example_coro_def world0_def)
  from call ev have cs: "cells w' = [example_cell Suspending False [0]]"
    by (auto simp: wc)
  from d acq adm call tr cs again show ?thesis
    unfolding r by (intro exI conjI) simp_all
qed

section \<open>Serialization of admission attempts\<close>

lemma serial_append:
  "serial h (es @ fs) = (case serial h es of None \<Rightarrow> None | Some h' \<Rightarrow> serial h' fs)"
proof (induction es arbitrary: h)
  case Nil
  show ?case by simp
next
  case (Cons x xs)
  obtain i e where x: "x = (i, e)" by (cases x)
  show ?case unfolding x by (cases e) (simp_all add: Cons.IH)
qed

lemma acquired_append: "acquired (es @ fs) = acquired es @ acquired fs"
proof (induction es)
  case Nil
  show ?case by simp
next
  case (Cons x xs)
  obtain i e where x: "x = (i, e)" by (cases x)
  show ?case unfolding x by (cases e) (simp_all add: Cons.IH)
qed

lemma released_append: "released (es @ fs) = released es @ released fs"
proof (induction es)
  case Nil
  show ?case by simp
next
  case (Cons x xs)
  obtain i e where x: "x = (i, e)" by (cases x)
  show ?case unfolding x by (cases e) (simp_all add: Cons.IH)
qed

lemma move_events:
  assumes "trace w' = trace (shared s) @ es"
  shows "move i q w' s = s\<lparr>shared := w', pcs := (pcs s)(i := q),
                            events := events s @ map (Pair i) es\<rparr>"
  using assms by (simp add: move_def)

lemma cell_set_cell:
  "cell w r = Some c \<Longrightarrow> cell (emit es (set_cell r c' w)) r = Some c'"
  by (simp add: cell_def set_cell_def emit_def split: if_splits)

lemma trace_set_cell: "trace (emit es (set_cell r c' w)) = trace w @ es"
  by (simp add: set_cell_def emit_def)

lemma emit_nil: "emit [] w = w"
  by (simp add: emit_def)

lemma serialized_inside:
  assumes inv: "serialized r s" and pc: "in_admission (pcs s i)" and q: "in_admission q"
    and tr: "trace w' = trace (shared s) @ map (AdmitStep r) sts"
    and c: "cell (shared s) r = Some c" and c': "cell w' r = Some c'"
    and lk: "lock c' = lock c"
  shows "serialized r (move i q w' s)"
proof -
  from inv c obtain h where ser: "serial None (events s) = Some h"
    and own: "\<And>j. in_admission (pcs s j) \<longleftrightarrow> h = Some j"
    and dep: "depth (lock c) = (case h of None \<Rightarrow> 0 | Some _ \<Rightarrow> 1)"
    and ord: "acquired (events s) = released (events s) @ holding h"
    by (auto simp: serialized_def)
  from own pc have h: "h = Some i" by simp
  have st: "serial (Some i) (map (Pair i) (map (AdmitStep r) sts)) = Some (Some i)"
    by (induction sts) simp_all
  have na: "acquired (map (Pair i) (map (AdmitStep r) sts)) = []"
    by (induction sts) simp_all
  have nr: "released (map (Pair i) (map (AdmitStep r) sts)) = []"
    by (induction sts) simp_all
  have a: "\<And>j. in_admission (((pcs s)(i := q)) j) \<longleftrightarrow> h = Some j"
    using own q h by auto
  have b: "serial None (events s @ map (Pair i) (map (AdmitStep r) sts)) = Some h"
    using ser st h by (simp add: serial_append)
  have d: "acquired (events s @ map (Pair i) (map (AdmitStep r) sts))
             = released (events s @ map (Pair i) (map (AdmitStep r) sts)) @ holding h"
    using ord na nr by (simp add: acquired_append released_append)
  show ?thesis
    unfolding move_events [OF tr] serialized_def
    using a b d c' dep lk by auto
qed

lemma serialized_acquire:
  assumes inv: "serialized r s" and pc: "pcs s i = Start"
    and c: "cell (shared s) r = Some c" and free: "depth (lock c) = 0"
    and tr: "trace w' = trace (shared s) @ [Acquire r]"
    and c': "cell w' r = Some c'" and held: "depth (lock c') = 1"
  shows "serialized r (move i Admitting w' s)"
proof -
  from inv c obtain h where ser: "serial None (events s) = Some h"
    and own: "\<And>j. in_admission (pcs s j) \<longleftrightarrow> h = Some j"
    and dep: "depth (lock c) = (case h of None \<Rightarrow> 0 | Some _ \<Rightarrow> 1)"
    and ord: "acquired (events s) = released (events s) @ holding h"
    by (auto simp: serialized_def)
  from dep free have h: "h = None" by (cases h) simp_all
  have a: "\<And>j. in_admission (((pcs s)(i := Admitting)) j) \<longleftrightarrow> Some i = Some j"
    using own h by auto
  have b: "serial None (events s @ map (Pair i) [Acquire r]) = Some (Some i)"
    using ser h by (simp add: serial_append)
  have d: "acquired (events s @ map (Pair i) [Acquire r])
             = released (events s @ map (Pair i) [Acquire r]) @ holding (Some i)"
    using ord h by (simp add: acquired_append released_append holding_def)
  show ?thesis
    unfolding move_events [OF tr] serialized_def
    using a b d c' held by auto
qed

lemma serialized_release:
  assumes inv: "serialized r s" and pc: "in_admission (pcs s i)" and q: "\<not> in_admission q"
    and c: "cell (shared s) r = Some c"
    and tr: "trace w' = trace (shared s) @ [Release r]"
    and c': "cell w' r = Some c'" and free: "depth (lock c') = 0"
  shows "serialized r (move i q w' s)"
proof -
  from inv c obtain h where ser: "serial None (events s) = Some h"
    and own: "\<And>j. in_admission (pcs s j) \<longleftrightarrow> h = Some j"
    and ord: "acquired (events s) = released (events s) @ holding h"
    by (auto simp: serialized_def)
  from own pc have h: "h = Some i" by simp
  have a: "\<And>j. in_admission (((pcs s)(i := q)) j) \<longleftrightarrow> None = Some j"
    using own h q by auto
  have b: "serial None (events s @ map (Pair i) [Release r]) = Some None"
    using ser h by (simp add: serial_append)
  have d: "acquired (events s @ map (Pair i) [Release r])
             = released (events s @ map (Pair i) [Release r]) @ holding None"
    using ord h by (simp add: acquired_append released_append holding_def)
  show ?thesis
    unfolding move_events [OF tr] serialized_def
    using a b d c' free by auto
qed

lemma serialized_outside:
  assumes inv: "serialized r s" and pc: "\<not> in_admission (pcs s i)" and q: "\<not> in_admission q"
    and c: "cell (shared s) r = Some c"
    and tr: "trace w' = trace (shared s) @ es" and es: "es = [] \<or> (\<exists>f. es = [Invoke f])"
    and c': "cell w' r = Some c'" and lk: "lock c' = lock c"
  shows "serialized r (move i q w' s)"
proof -
  from inv c obtain h where ser: "serial None (events s) = Some h"
    and own: "\<And>j. in_admission (pcs s j) \<longleftrightarrow> h = Some j"
    and dep: "depth (lock c) = (case h of None \<Rightarrow> 0 | Some _ \<Rightarrow> 1)"
    and ord: "acquired (events s) = released (events s) @ holding h"
    by (auto simp: serialized_def)
  from own pc have h: "h \<noteq> Some i" by auto
  have a: "\<And>j. in_admission (((pcs s)(i := q)) j) \<longleftrightarrow> h = Some j"
    using own h q pc by auto
  have b: "serial None (events s @ map (Pair i) es) = Some h"
    using es ser h by (auto simp: serial_append)
  have d: "acquired (events s @ map (Pair i) es)
             = released (events s @ map (Pair i) es) @ holding h"
    using es ord by (auto simp: acquired_append released_append)
  show ?thesis
    unfolding move_events [OF tr] serialized_def
    using a b d c' dep lk by auto
qed

lemma acquire_free:
  assumes "acquire r w = Some w'" and "cell w r = Some c" and "depth (lock c) = 0"
  shows "\<exists>c'. cell w' r = Some c' \<and> depth (lock c') = 1 \<and> thr c' = thr c \<and>
              trace w' = trace w @ [Acquire r]"
proof -
  from acquire_inv [OF assms(1)] assms(2) obtain l where l: "lock_acquire (lock c) = Some l"
    and w': "w' = w\<lparr>cells := (cells w)[r := c\<lparr>lock := l\<rparr>], trace := trace w @ [Acquire r]\<rparr>"
    by auto
  have "depth l = 1" using assms(3) l by (rule lock_acquire_depth)
  moreover have "cell w' r = Some (c\<lparr>lock := l\<rparr>)"
    using cell_bound [OF assms(2)] by (simp add: w' cell_def)
  ultimately show ?thesis by (simp add: w')
qed

lemma release_held:
  assumes "cell w r = Some c" and "depth (lock c) = 1"
  shows "\<exists>w' c'. release r w = Some (Inr (), w') \<and> cell w' r = Some c' \<and>
           depth (lock c') = 0 \<and> thr c' = thr c \<and> trace w' = trace w @ [Release r]"
proof -
  have lr: "lock_release (lock c) = Inr (lock c\<lparr>depth := 0\<rparr>)"
    using assms(2) by (simp add: lock_release_def)
  have "release r w = Some (Inr (), w\<lparr>cells := (cells w)[r := c\<lparr>lock := lock c\<lparr>depth := 0\<rparr>\<rparr>],
                                      trace := trace w @ [Release r]\<rparr>)"
    by (rule release_Some [OF assms(1) lr])
  moreover have "cell (w\<lparr>cells := (cells w)[r := c\<lparr>lock := lock c\<lparr>depth := 0\<rparr>\<rparr>],
                          trace := trace w @ [Release r]\<rparr>) r
                   = Some (c\<lparr>lock := lock c\<lparr>depth := 0\<rparr>\<rparr>)"
    using cell_bound [OF assms(1)] by (simp add: cell_def)
  ultimately show ?thesis by simp
qed

lemma move_idle: "pcs s i = q \<Longrightarrow> move i q (shared s) s = s"
  by (auto simp: move_def)

lemma serialized_cell: "serialized r s \<Longrightarrow> \<exists>c. cell (shared s) r = Some c"
  by (auto simp: serialized_def)

lemma serialized_held:
  assumes "serialized r s" and "in_admission (pcs s i)" and "cell (shared s) r = Some c"
  shows "depth (lock c) = 1"
  using assms by (auto simp: serialized_def)

lemma serialized_run_caller:
  assumes inv: "serialized r s"
  shows "serialized r (run_caller func r argv i s)"
proof -
  obtain c where c: "cell (shared s) r = Some c"
    using serialized_cell [OF inv] by blast
  show ?thesis
  proof (cases "pcs s i")
    case Start
    show ?thesis
    proof (cases "depth (lock c) = 0")
      case False
      with Start c inv show ?thesis by (simp add: run_caller_def caller_step_def move_idle)
    next
      case True
      show ?thesis
      proof (cases "acquire r (shared s)")
        case None
        with Start c True inv show ?thesis by (simp add: run_caller_def caller_step_def move_idle)
      next
        case (Some w')
        from acquire_free [OF Some c True] obtain c' where c': "cell w' r = Some c'"
          and held: "depth (lock c') = 1" and tr: "trace w' = trace (shared s) @ [Acquire r]"
          by blast
        have "serialized r (move i Admitting w' s)"
          by (rule serialized_acquire [OF inv Start c True tr c' held])
        with Start c True Some show ?thesis by (simp add: run_caller_def caller_step_def move_idle)
      qed
    qed
  next
    case Admitting
    then have pc: "in_admission (pcs s i)" by simp
    obtain dres t' where de: "decide (thr c) (clock (shared s)) = (dres, t')"
      by (cases "decide (thr c) (clock (shared s))")
    let ?c' = "c\<lparr>thr := t'\<rparr>"
    have step: "in_admission q \<Longrightarrow>
        serialized r (move i q (emit (map (AdmitStep r) sts) (set_cell r ?c' (shared s))) s)"
      for q sts
      by (rule serialized_inside [OF inv pc _ trace_set_cell c cell_set_cell [OF c]]) simp_all
    show ?thesis
    proof (cases dres)
      case (Inl e)
      from step [of "Leaving (Inl e)" "[]"] Admitting c de Inl show ?thesis
        by (simp add: run_caller_def caller_step_def move_idle emit_nil)
    next
      case (Inr dec)
      show ?thesis
      proof (cases dec)
        case Allow
        from step [of "Leaving (Inr ())" "[Decided Allow]"] Admitting c de Inr Allow
        show ?thesis by (simp add: run_caller_def caller_step_def move_idle)
      next
        case Reject
        from step [of "Leaving (Inl ThrottleException)" "[Decided Reject]"]
          Admitting c de Inr Reject
        show ?thesis by (simp add: run_caller_def caller_step_def move_idle)
      next
        case (WaitFor d)
        from step [of "Sleeping (clock (shared s) + d) d" "[Decided (WaitFor d)]"]
          Admitting c de Inr WaitFor
        show ?thesis by (simp add: run_caller_def caller_step_def move_idle)
      qed
    qed
  next
    case (Sleeping until d)
    then have pc: "in_admission (pcs s i)" by simp
    show ?thesis
    proof (cases "until \<le> clock (shared s)")
      case False
      with Sleeping inv show ?thesis by (simp add: run_caller_def caller_step_def move_idle)
    next
      case True
      have tr: "trace (emit [AdmitStep r (Slept d)] (shared s))
                  = trace (shared s) @ map (AdmitStep r) [Slept d]"
        by (simp add: emit_def)
      have c': "cell (emit [AdmitStep r (Slept d)] (shared s)) r = Some c"
        using c by (simp add: emit_def cell_def split: if_splits)
      have "serialized r (move i Admitting (emit [AdmitStep r (Slept d)] (shared s)) s)"
        by (rule serialized_inside [OF inv pc _ tr c c']) simp_all
      with Sleeping True show ?thesis by (simp add: run_caller_def caller_step_def move_idle)
    qed
  next
    case (Leaving ares)
    then have pc: "in_admission (pcs s i)" by simp
    have held: "depth (lock c) = 1"
      by (rule serialized_held [OF inv pc c])
    from release_held [OF c held] obtain w' c' where rel: "release r (shared s) = Some (Inr (), w')"
      and c': "cell w' r = Some c'" and free: "depth (lock c') = 0"
      and tr: "trace w' = trace (shared s) @ [Release r]"
      by blast
    have go: "\<And>q. \<not> in_admission q \<Longrightarrow> serialized r (move i q w' s)"
      by (rule serialized_release [OF inv pc _ c tr c' free])
    show ?thesis
    proof (cases ares)
      case (Inl e)
      from go [of "Done (Inl e)"] Leaving rel Inl show ?thesis
        by (simp add: run_caller_def caller_step_def move_idle)
    next
      case (Inr u)
      from go [of Calling] Leaving rel Inr show ?thesis
        by (simp add: run_caller_def caller_step_def move_idle)
    qed
  next
    case Calling
    then have pc: "\<not> in_admission (pcs s i)" by simp
    obtain res w' where iv: "invoke func (argv i) (shared s) = (res, w')"
      by (cases "invoke func (argv i) (shared s)")
    have f: "cells w' = cells (shared s)" "trace w' = trace (shared s) @ [Invoke (f_name func)]"
      using invoke_fields [of func "argv i" "shared s"] by (simp_all add: iv)
    have c': "cell w' r = Some c" using c f(1) by (simp add: cell_def split: if_splits)
    have "serialized r (move i (Done res) w' s)"
      by (rule serialized_outside [OF inv pc _ c f(2) _ c']) simp_all
    with Calling iv show ?thesis by (simp add: run_caller_def caller_step_def move_idle)
  next
    case (Done res)
    with inv show ?thesis by (simp add: run_caller_def caller_step_def move_idle)
  qed
qed

lemma move_same: "move i q (shared s) s = s\<lparr>pcs := (pcs s)(i := q)\<rparr>"
  by (simp add: move_def)

lemma serialized_cancel_caller:
  assumes inv: "serialized r s"
  shows "serialized r (cancel_caller r i s)"
proof -
  obtain c where c: "cell (shared s) r = Some c"
    using serialized_cell [OF inv] by blast
  have tr: "trace (shared s) = trace (shared s) @ []" by simp
  show ?thesis
  proof (cases "cls (thr c)")
    case Blocking
    with c inv show ?thesis by (simp add: cancel_caller_def)
  next
    case Suspending
    show ?thesis
    proof (cases "pcs s i")
      case Start
      then have pc: "\<not> in_admission (pcs s i)" by simp
      have "serialized r (move i (Done (Inl CancelledError)) (shared s) s)"
        by (rule serialized_outside [OF inv pc _ c tr _ c]) simp_all
      with Start Suspending c show ?thesis by (simp add: cancel_caller_def move_same)
    next
      case (Sleeping until d)
      then have pc: "in_admission (pcs s i)" by simp
      have tr': "trace (shared s) = trace (shared s) @ map (AdmitStep r) []" by simp
      have "serialized r (move i (Leaving (Inl CancelledError)) (shared s) s)"
        by (rule serialized_inside [OF inv pc _ tr' c c]) simp_all
      with Sleeping Suspending c show ?thesis by (simp add: cancel_caller_def move_same)
    qed (use inv Suspending c in \<open>simp_all add: cancel_caller_def\<close>)
  qed
qed

lemma serialized_act: "serialized r s \<Longrightarrow> serialized r (act func r argv a s)"
proof (cases a)
  case (Tick d)
  assume inv: "serialized r s"
  have "cell ((shared s)\<lparr>clock := clock (shared s) + int d\<rparr>) r = cell (shared s) r"
    by (simp add: cell_def)
  with inv show ?thesis unfolding Tick by (simp add: serialized_def)
qed (simp_all add: serialized_run_caller serialized_cancel_caller)

lemma serialized_exec: "serialized r s \<Longrightarrow> serialized r (exec func r argv as s)"
  by (induction as arbitrary: s) (simp_all add: serialized_act)

lemma serialized_initial:
  assumes "cell w r = Some c" and "depth (lock c) = 0"
  shows "serialized r (initial w)"
  using assms by (simp add: serialized_def initial_def holding_def)

lemma run_caller_view:
  "shared (run_caller func r argv i s) = fst (caller_step func r (argv i) (shared s) (pcs s i)) \<and>
   pcs (run_caller func r argv i s) i = snd (caller_step func r (argv i) (shared s) (pcs s i))"
  by (simp add: run_caller_def move_def split: prod.splits)

lemma caller_step_start:
  assumes "cell w r = Some c" and "depth (lock c) = 0" and "lock_acquire (lock c) = Some l"
  shows "caller_step func r args w Start
           = (w\<lparr>cells := (cells w)[r := c\<lparr>lock := l\<rparr>], trace := trace w @ [Acquire r]\<rparr>,
              Admitting)"
  using assms by (simp add: caller_step_def acquire_Some)

lemma caller_step_admit:
  assumes "cell w r = Some c" and "decide (thr c) (clock w) = (Inr dec, t')"
  shows "caller_step func r args w Admitting
           = (w\<lparr>cells := (cells w)[r := c\<lparr>thr := t'\<rparr>],
                trace := trace w @ [AdmitStep r (Decided dec)]\<rparr>,
              case dec of Allow \<Rightarrow> Leaving (Inr ())
                        | Reject \<Rightarrow> Leaving (Inl ThrottleException)
                        | WaitFor d \<Rightarrow> Sleeping (clock w + d) d)"
  using assms by (cases dec) (simp_all add: caller_step_def set_cell_def emit_def)

lemma caller_step_wake:
  assumes "until \<le> clock w"
  shows "caller_step func r args w (Sleeping until d)
           = (w\<lparr>trace := trace w @ [AdmitStep r (Slept d)]\<rparr>, Admitting)"
  using assms by (simp add: caller_step_def emit_def)

lemma caller_step_leave:
  assumes "cell w r = Some c" and "lock_release (lock c) = Inr l"
  shows "caller_step func r args w (Leaving ares)
           = (w\<lparr>cells := (cells w)[r := c\<lparr>lock := l\<rparr>], trace := trace w @ [Release r]\<rparr>,
              case ares of Inl e \<Rightarrow> Done (Inl e) | Inr _ \<Rightarrow> Calling)"
  using assms by (cases ares) (simp_all add: caller_step_def release_Some)

lemma caller_step_call:
  "caller_step func r args w Calling = (snd (invoke func args w), Done (fst (invoke func args w)))"
  by (simp add: caller_step_def split: prod.splits)

lemma caller_step_done: "caller_step func r args w (Done res) = (w, Done res)"
  by (simp add: caller_step_def)

lemma decide_allow:
  "\<not> window_full t now \<Longrightarrow>
     decide t now = (Inr Allow, t\<lparr>history := evict now (period t) (history t) @ [now]\<rparr>)"
  by (simp add: decide_def window_full_def)

lemma decide_full:
  assumes "window_full t now" and "evict now (period t) (history t) = oldest # rest"
  shows "decide t now
           = (Inr (if raise_on_throttle t then Reject else WaitFor (oldest + period t - now)),
              t\<lparr>history := oldest # rest\<rparr>)"
  using assms by (simp add: decide_def window_full_def)


lemma link_enter:
  assumes c: "cell (shared s) r = Some c" and free: "depth (lock c) = 0"
    and l: "lock_acquire (lock c) = Some l" and pc: "pcs s i = Start"
  shows "shared (run_caller func r argv i s)
           = (shared s)\<lparr>cells := (cells (shared s))[r := c\<lparr>lock := l\<rparr>],
                        trace := trace (shared s) @ [Acquire r]\<rparr> \<and>
         pcs (run_caller func r argv i s) i = Admitting"
  by (simp add: run_caller_view pc caller_step_start [OF c free l])

lemma link_decide:
  assumes w: "shared s = w" and c: "cell w r = Some c"
    and de: "decide (thr c) (clock w) = (Inr dec, t')" and pc: "pcs s i = Admitting"
  shows "shared (run_caller func r argv i s)
           = w\<lparr>cells := (cells w)[r := c\<lparr>thr := t'\<rparr>],
                trace := trace w @ [AdmitStep r (Decided dec)]\<rparr> \<and>
         pcs (run_caller func r argv i s) i
           = (case dec of Allow \<Rightarrow> Leaving (Inr ())
                        | Reject \<Rightarrow> Leaving (Inl ThrottleException)
                        | WaitFor d \<Rightarrow> Sleeping (clock w + d) d)"
  by (simp add: run_caller_view pc w caller_step_admit [OF c de])

lemma link_wake:
  assumes w: "shared s = w" and pc: "pcs s i = Sleeping until d" and due: "until \<le> clock w"
  shows "shared (run_caller func r argv i s) = w\<lparr>trace := trace w @ [AdmitStep r (Slept d)]\<rparr> \<and>
         pcs (run_caller func r argv i s) i = Admitting"
  by (simp add: run_caller_view pc w caller_step_wake [OF due])

lemma link_tick:
  assumes w: "shared s = w"
  shows "shared (act func r argv (Tick k) s) = w\<lparr>clock := clock w + int k\<rparr> \<and>
         pcs (act func r argv (Tick k) s) i = pcs s i"
  by (simp add: w)

lemma link_finish:
  assumes d: "decorator n p rot func w0 = (Inr wr, w1)"
    and g: "with_lock (w_cell wr) (thr_call (w_cell wr)) w = Some (ares, wa)"
    and wb: "shared s = wb" and cb: "cell wb (w_cell wr) = Some cb"
    and lr: "lock_release (lock cb) = Inr l"
    and wa: "wa = wb\<lparr>cells := (cells wb)[w_cell wr := cb\<lparr>lock := l\<rparr>],
                     trace := trace wb @ [Release (w_cell wr)]\<rparr>"
    and pc: "pcs s i = Leaving ares"
  shows "\<exists>res w'. w_call wr (argv i) w = Some (res, w') \<and>
           shared (exec func (w_cell wr) argv [Run i, Run i] s) = w' \<and>
           pcs (exec func (w_cell wr) argv [Run i, Run i] s) i = Done res"
proof -
  let ?r = "w_cell wr"
  let ?s1 = "run_caller func ?r argv i s"
  have s1: "shared ?s1 = wa"
    and p1: "pcs ?s1 i = (case ares of Inl e \<Rightarrow> Done (Inl e) | Inr _ \<Rightarrow> Calling)"
    by (simp_all add: run_caller_view pc wb wa caller_step_leave [OF cb lr])
  let ?s2 = "run_caller func ?r argv i ?s1"
  have ex: "exec func ?r argv [Run i, Run i] s = ?s2" by simp
  show ?thesis
  proof (cases ares)
    case (Inl e)
    have call: "w_call wr (argv i) w = Some (Inl e, wa)"
      using d g unfolding Inl by (rule decorated_call_raises)
    have "shared ?s2 = wa \<and> pcs ?s2 i = Done (Inl e)"
      using s1 p1 Inl by (simp add: run_caller_view caller_step_done)
    with call show ?thesis unfolding ex by blast
  next
    case (Inr u)
    then have a: "ares = Inr ()" by simp
    have call: "w_call wr (argv i) w = Some (invoke func (argv i) wa)"
      using d g unfolding a by (rule decorated_call_admitted)
    then have call': "w_call wr (argv i) w
                        = Some (fst (invoke func (argv i) wa), snd (invoke func (argv i) wa))"
      by simp
    have "shared ?s2 = snd (invoke func (argv i) wa) \<and>
          pcs ?s2 i = Done (fst (invoke func (argv i) wa))"
      using s1 p1 Inr by (simp add: run_caller_view caller_step_call)
    with call' show ?thesis unfolding ex by blast
  qed
qed

lemma solo_run_is_call:
  assumes d: "decorator n p rot func w0 = (Inr wr, w1)"
    and c: "cell (shared s) (w_cell wr) = Some c" and rdy: "ready c"
    and nc: "\<not> cancel_pending (shared s)" and pc: "pcs s i = Start"
  shows "\<exists>sch res w'. set sch \<subseteq> insert (Run i) (range Tick) \<and>
           w_call wr (argv i) (shared s) = Some (res, w') \<and>
           shared (exec func (w_cell wr) argv sch s) = w' \<and>
           pcs (exec func (w_cell wr) argv sch s) i = Done res"
proof -
  let ?r = "w_cell wr"
  let ?w = "shared s"
  let ?t = "thr c"
  let ?now = "clock ?w"
  from rdy have free: "depth (lock c) = 0" and wft: "wf_thr ?t"
    by (simp_all add: ready_def)
  obtain l where l: "lock_acquire (lock c) = Some l"
    using lock_acquire_free [OF free] by blast
  have lt: "?r < length (cells ?w)" using cell_bound [OF c] by simp
  have lr: "lock_release l = Inr (lock c)" by (rule lock_acquire_release [OF l])
  let ?c1 = "c\<lparr>lock := l\<rparr>"
  let ?W1 = "?w\<lparr>cells := (cells ?w)[?r := ?c1], trace := trace ?w @ [Acquire ?r]\<rparr>"
  let ?s1 = "run_caller func ?r argv i s"
  have s1: "shared ?s1 = ?W1" and p1: "pcs ?s1 i = Admitting"
    using link_enter [OF c free l pc, where func = func and argv = argv] by simp_all
  have c1: "cell ?W1 ?r = Some ?c1" using lt by (simp add: cell_def)
  let ?s2 = "run_caller func ?r argv i ?s1"
  show ?thesis
  proof (cases "window_full ?t ?now \<and> \<not> raise_on_throttle ?t")
    case False
    obtain dec t' ares where de: "decide ?t ?now = (Inr dec, t')"
      and al: "admit_loop (wait_step (cls ?t) (cancel_pending ?w)) ?t ?now []
                 = Some (ares, t', ?now, [Decided dec])"
      and lv: "dec = Allow \<and> ares = Inr () \<or> dec = Reject \<and> ares = Inl ThrottleException"
    proof (cases "window_full ?t ?now")
      case nf: False
      show ?thesis
        by (rule that [of Allow _ "Inr ()"])
          (simp_all add: decide_allow [OF nf] admit_allow [OF nf])
    next
      case full: True
      with False have r: "raise_on_throttle ?t" by simp
      obtain oldest rest where h: "evict ?now (period ?t) (history ?t) = oldest # rest"
        using full_nonempty [OF wft full] by blast
      show ?thesis
        by (rule that [of Reject _ "Inl ThrottleException"])
          (simp_all add: decide_full [OF full h] admit_reject [OF full h r] r)
    qed
    let ?cb = "?c1\<lparr>thr := t'\<rparr>"
    let ?Wb = "?W1\<lparr>cells := (cells ?W1)[?r := ?cb],
                    trace := trace ?W1 @ [AdmitStep ?r (Decided dec)]\<rparr>"
    have de1: "decide (thr ?c1) (clock ?W1) = (Inr dec, t')" using de by simp
    have s2: "shared ?s2 = ?Wb" and p2: "pcs ?s2 i = Leaving ares"
      using link_decide [OF s1 c1 de1 p1, where func = func and argv = argv] lv by auto
    have cb: "cell ?Wb ?r = Some ?cb" using lt by (simp add: cell_def)
    have lrb: "lock_release (lock ?cb) = Inr (lock c)" using lr by simp
    have g: "with_lock ?r (thr_call ?r) ?w
               = Some (ares, after_admission ?r c ares t' ?now [Decided dec] ?w)"
      using c l al by (rule guarded_admission)
    have wa: "after_admission ?r c ares t' ?now [Decided dec] ?w
                = ?Wb\<lparr>cells := (cells ?Wb)[?r := ?cb\<lparr>lock := lock c\<rparr>],
                      trace := trace ?Wb @ [Release ?r]\<rparr>"
      using nc by (simp add: after_admission_def)
    from link_finish [OF d g s2 cb lrb wa p2]
    obtain res w' where call: "w_call wr (argv i) ?w = Some (res, w')"
      and sh: "shared (exec func ?r argv [Run i, Run i] ?s2) = w'"
      and pd: "pcs (exec func ?r argv [Run i, Run i] ?s2) i = Done res"
      by blast
    have ex: "exec func ?r argv [Run i, Run i, Run i, Run i] s
                = exec func ?r argv [Run i, Run i] ?s2"
      by simp
    have "set [Run i, Run i, Run i, Run i] \<subseteq> insert (Run i) (range Tick)" by simp
    with call sh pd ex show ?thesis by metis
  next
    case True
    then have full: "window_full ?t ?now" and r: "\<not> raise_on_throttle ?t" by simp_all
    obtain oldest rest where h: "evict ?now (period ?t) (history ?t) = oldest # rest"
      and le: "int (length (oldest # rest)) \<le> calls ?t"
      using full_nonempty [OF wft full] by blast
    let ?d = "oldest + period ?t - ?now"
    have dpos: "0 < ?d" using evict_head_recent [OF h] by simp
    let ?t1 = "?t\<lparr>history := oldest # rest\<rparr>"
    let ?c2 = "?c1\<lparr>thr := ?t1\<rparr>"
    let ?W2 = "?W1\<lparr>cells := (cells ?W1)[?r := ?c2],
                    trace := trace ?W1 @ [AdmitStep ?r (Decided (WaitFor ?d))]\<rparr>"
    have de1: "decide (thr ?c1) (clock ?W1) = (Inr (WaitFor ?d), ?t1)"
      using decide_full [OF full h] r by simp
    have s2: "shared ?s2 = ?W2" and p2: "pcs ?s2 i = Sleeping (?now + ?d) ?d"
      using link_decide [OF s1 c1 de1 p1, where func = func and argv = argv] by simp_all
    let ?s3 = "act func ?r argv (Tick (nat ?d)) ?s2"
    let ?W3 = "?W2\<lparr>clock := oldest + period ?t\<rparr>"
    have s3: "shared ?s3 = ?W3" and p3: "pcs ?s3 i = Sleeping (?now + ?d) ?d"
      using link_tick [OF s2, where func = func and argv = argv and k = "nat ?d" and i = i]
        p2 dpos
      by simp_all
    let ?s4 = "run_caller func ?r argv i ?s3"
    let ?W4 = "?W3\<lparr>trace := trace ?W3 @ [AdmitStep ?r (Slept ?d)]\<rparr>"
    have wake: "?now + ?d \<le> clock ?W3" by simp
    have s4: "shared ?s4 = ?W4" and p4: "pcs ?s4 i = Admitting"
      using link_wake [OF s3 p3 wake, where func = func and argv = argv] by simp_all
    have c4: "cell ?W4 ?r = Some ?c2" using lt by (simp add: cell_def)
    have nf: "\<not> window_full ?t1 (oldest + period ?t)"
      by (rule not_full_after_wait [OF le])
    let ?tF = "?t\<lparr>history := evict (oldest + period ?t) (period ?t) (oldest # rest)
                                 @ [oldest + period ?t]\<rparr>"
    have de4: "decide (thr ?c2) (clock ?W4) = (Inr Allow, ?tF)"
      using decide_allow [OF nf] by simp
    let ?s5 = "run_caller func ?r argv i ?s4"
    let ?cb = "?c2\<lparr>thr := ?tF\<rparr>"
    let ?Wb = "?W4\<lparr>cells := (cells ?W4)[?r := ?cb],
                    trace := trace ?W4 @ [AdmitStep ?r (Decided Allow)]\<rparr>"
    have s5: "shared ?s5 = ?Wb" and p5: "pcs ?s5 i = Leaving (Inr ())"
      using link_decide [OF s4 c4 de4 p4, where func = func and argv = argv] by simp_all
    have cb: "cell ?Wb ?r = Some ?cb" using lt by (simp add: cell_def)
    have lrb: "lock_release (lock ?cb) = Inr (lock c)" using lr by simp
    have sl: "wait_step (cls ?t) (cancel_pending ?w) ?d ?now = Inr (oldest + period ?t)"
      using nc by (cases "cls ?t") (simp_all add: time_sleep_def asyncio_sleep_def)
    have al: "admit_loop (wait_step (cls ?t) (cancel_pending ?w)) ?t ?now []
                = Some (Inr (), ?tF, oldest + period ?t,
                        [] @ [Decided (WaitFor ?d), Slept ?d, Decided Allow])"
      by (rule admit_wait_allow
            [where sleep = "wait_step (cls ?t) (cancel_pending ?w)", OF full h le r sl])
    have g: "with_lock ?r (thr_call ?r) ?w
               = Some (Inr (), after_admission ?r c (Inr ()) ?tF (oldest + period ?t)
                                 [Decided (WaitFor ?d), Slept ?d, Decided Allow] ?w)"
      using c l al [simplified] by (rule guarded_admission)
    have wa: "after_admission ?r c (Inr ()) ?tF (oldest + period ?t)
                [Decided (WaitFor ?d), Slept ?d, Decided Allow] ?w
                = ?Wb\<lparr>cells := (cells ?Wb)[?r := ?cb\<lparr>lock := lock c\<rparr>],
                      trace := trace ?Wb @ [Release ?r]\<rparr>"
      using nc by (simp add: after_admission_def)
    from link_finish [OF d g s5 cb lrb wa p5]
    obtain res w' where call: "w_call wr (argv i) ?w = Some (res, w')"
      and sh: "shared (exec func ?r argv [Run i, Run i] ?s5) = w'"
      and pd: "pcs (exec func ?r argv [Run i, Run i] ?s5) i = Done res"
      by blast
    let ?sch = "[Run i, Run i, Tick (nat ?d), Run i, Run i, Run i, Run i]"
    have ex: "exec func ?r argv ?sch s = exec func ?r argv [Run i, Run i] ?s5"
      by simp
    have "set ?sch \<subseteq> insert (Run i) (range Tick)" by auto
    with call sh pd ex show ?thesis by metis
  qed
qed

lemma decide_wf: "wf_thr t \<Longrightarrow> wf_thr (snd (decide t now))"
proof -
  assume wf: "wf_thr t"
  have "length (evict now (period t) (history t)) \<le> length (history t)"
    by (rule length_evict)
  with wf show ?thesis
    by (auto simp: decide_def wf_thr_def Let_def split: list.splits)
qed

lemma steady_set_thr:
  assumes "steady r w" and "cell w r = Some c" and "wf_thr t'"
  shows "steady r (emit es (set_cell r (c\<lparr>thr := t'\<rparr>) w))"
  using assms cell_set_cell [of w r c es "c\<lparr>thr := t'\<rparr>"]
  by (simp add: steady_def) (simp add: emit_def set_cell_def)

lemma steady_set_lock:
  assumes "steady r w" and "cell w r = Some c"
  shows "steady r (emit es (set_cell r (c\<lparr>lock := l\<rparr>) w))"
  using assms cell_set_cell [of w r c es "c\<lparr>lock := l\<rparr>"]
  by (simp add: steady_def) (auto simp: emit_def set_cell_def)

lemma steady_emit: "steady r w \<Longrightarrow> steady r (emit es w)"
  by (auto simp: steady_def emit_def cell_def split: if_splits)

lemma steady_invoke: "steady r w \<Longrightarrow> steady r (snd (invoke func args w))"
  by (auto simp: steady_def invoke_def emit_def cell_def split: prod.splits if_splits)

lemma steady_caller_step:
  assumes st: "steady r w"
  shows "steady r (fst (caller_step func r args w q))"
proof -
  from st obtain c where c: "cell w r = Some c" and wf: "wf_thr (thr c)"
    by (auto simp: steady_def)
  show ?thesis
  proof (cases q)
    case Start
    show ?thesis
    proof (cases "lock_acquire (lock c)")
      case None
      with Start c st show ?thesis by (simp add: caller_step_def acquire_def)
    next
      case (Some l)
      have "acquire r w = Some (emit [Acquire r] (set_cell r (c\<lparr>lock := l\<rparr>) w))"
        using c Some by (simp add: acquire_def)
      with Start c st steady_set_lock [OF st c, of "[Acquire r]" l] show ?thesis
        by (simp add: caller_step_def)
    qed
  next
    case Admitting
    obtain dres t' where de: "decide (thr c) (clock w) = (dres, t')"
      by (cases "decide (thr c) (clock w)")
    have wf': "wf_thr t'" using decide_wf [OF wf, of "clock w"] de by simp
    have a: "steady r (emit es (set_cell r (c\<lparr>thr := t'\<rparr>) w))" for es
      by (rule steady_set_thr [OF st c wf'])
    show ?thesis
    proof (cases dres)
      case (Inl e)
      with Admitting c de a [of "[]"] show ?thesis
        by (simp add: caller_step_def emit_nil)
    next
      case (Inr dec)
      with Admitting c de a show ?thesis
        by (cases dec) (simp_all add: caller_step_def)
    qed
  next
    case (Sleeping until d)
    with st steady_emit [OF st] show ?thesis by (simp add: caller_step_def)
  next
    case (Leaving ares)
    show ?thesis
    proof (cases "lock_release (lock c)")
      case (Inl e)
      with Leaving c st show ?thesis by (simp add: caller_step_def release_def)
    next
      case (Inr l)
      have "release r w = Some (Inr (), emit [Release r] (set_cell r (c\<lparr>lock := l\<rparr>) w))"
        using c Inr by (simp add: release_def)
      with Leaving steady_set_lock [OF st c, of "[Release r]" l] show ?thesis
        by (cases ares) (simp_all add: caller_step_def)
    qed
  next
    case Calling
    with steady_invoke [OF st, of func args] show ?thesis
      by (auto simp: caller_step_def split: prod.splits)
  next
    case (Done res)
    with st show ?thesis by (simp add: caller_step_def)
  qed
qed

lemma steady_act: "steady r (shared s) \<Longrightarrow> steady r (shared (act func r argv a s))"
proof (cases a)
  case (Run i)
  assume "steady r (shared s)"
  then show ?thesis unfolding Run
    by (simp add: run_caller_view steady_caller_step)
next
  case (Tick d)
  assume "steady r (shared s)"
  then show ?thesis unfolding Tick by (auto simp: steady_def cell_def split: if_splits)
next
  case (Cancel i)
  assume "steady r (shared s)"
  then show ?thesis unfolding Cancel
    by (simp add: cancel_caller_def split: option.splits thr_class.splits pc.splits)
qed

lemma steady_exec: "steady r (shared s) \<Longrightarrow> steady r (shared (exec func r argv as s))"
  by (induction as arbitrary: s) (simp_all add: steady_act)

text \<open>
  Claim C2. The callers of one guarded operation run the wrapper step by step, each step
  being the wrapper's own acquisition, admission decision, wake-up, release or call. A
  caller alone goes through exactly the call of the wrapper, with its result and its
  effect on the world. Whatever the interleaving, a caller that is inside its admission
  attempt (deciding, waiting or about to leave the \<^verbatim>\<open>with\<close> block) holds the lock, which
  is held exactly then, so at most one caller is inside an attempt at any time; every
  admission step lies between the acquisition and the release of the caller it belongs
  to, with no other caller in between; and the attempts end in the order in which the
  lock was acquired.
\<close>

theorem admission_is_serialized:
  assumes d: "decorator n p rot func w0 = (Inr wr, w1)"
    and c: "cell w (w_cell wr) = Some c" and rdy: "ready c" and nc: "\<not> cancel_pending w"
    and s: "s = exec func (w_cell wr) argv sch (initial w)"
  shows "\<exists>h c'. serial None (events s) = Some h \<and>
           (\<forall>i. in_admission (pcs s i) \<longleftrightarrow> h = Some i) \<and>
           (\<forall>i j. in_admission (pcs s i) \<and> in_admission (pcs s j) \<longrightarrow> i = j) \<and>
           acquired (events s) = released (events s) @ holding h \<and>
           cell (shared s) (w_cell wr) = Some c' \<and>
           depth (lock c') = (case h of None \<Rightarrow> 0 | Some _ \<Rightarrow> 1) \<and>
           (\<forall>i. h = None \<and> pcs s i = Start \<longrightarrow>
              (\<exists>sch' res w'. set sch' \<subseteq> insert (Run i) (range Tick) \<and>
                 w_call wr (argv i) (shared s) = Some (res, w') \<and>
                 shared (exec func (w_cell wr) argv sch' s) = w' \<and>
                 pcs (exec func (w_cell wr) argv sch' s) i = Done res))"
proof -
  let ?r = "w_cell wr"
  from rdy have free: "depth (lock c) = 0" and wft: "wf_thr (thr c)"
    by (simp_all add: ready_def)
  have "serialized ?r (initial w)"
    using c free by (rule serialized_initial)
  then have ser: "serialized ?r s"
    unfolding s by (rule serialized_exec)
  have "steady ?r (shared (initial w :: ('b, 'c) conc))"
    using c wft nc by (auto simp: steady_def initial_def)
  then have st: "steady ?r (shared s)"
    unfolding s by (rule steady_exec)
  from ser obtain c' h where c': "cell (shared s) ?r = Some c'"
    and sh: "serial None (events s) = Some h"
    and own: "\<forall>i. in_admission (pcs s i) \<longleftrightarrow> h = Some i"
    and dep: "depth (lock c') = (case h of None \<Rightarrow> 0 | Some _ \<Rightarrow> 1)"
    and ord: "acquired (events s) = released (events s) @ holding h"
    by (auto simp: serialized_def)
  from own have excl: "\<forall>i j. in_admission (pcs s i) \<and> in_admission (pcs s j) \<longrightarrow> i = j"
    by auto
  from st c' have wf': "wf_thr (thr c')" and nc': "\<not> cancel_pending (shared s)"
    by (auto simp: steady_def)
  have link: "\<forall>i. h = None \<and> pcs s i = Start \<longrightarrow>
              (\<exists>sch' res w'. set sch' \<subseteq> insert (Run i) (range Tick) \<and>
                 w_call wr (argv i) (shared s) = Some (res, w') \<and>
                 shared (exec func ?r argv sch' s) = w' \<and>
                 pcs (exec func ?r argv sch' s) i = Done res)"
  proof (intro allI impI)
    fix i
    assume a: "h = None \<and> pcs s i = Start"
    with dep wf' have rdy': "ready c'" by (simp add: ready_def)
    from a have pc: "pcs s i = Start" by simp
    show "\<exists>sch' res w'. set sch' \<subseteq> insert (Run i) (range Tick) \<and>
                 w_call wr (argv i) (shared s) = Some (res, w') \<and>
                 shared (exec func ?r argv sch' s) = w' \<and>
                 pcs (exec func ?r argv sch' s) i = Done res"
      by (rule solo_run_is_call [OF d c' rdy' nc' pc])
  qed
  from sh own excl ord c' dep link show ?thesis by blast
qed


theorem admission_is_serialized_witness:
  "\<exists>wr w1 sch' res w'.
     decorator 1 10 False example_func world0 = (Inr wr, w1) \<and>
     pcs (exec example_func 0 int example_schedule (initial example_start)) 1 = Sleeping 10 7 \<and>
     pcs (exec example_func 0 int example_schedule (initial example_start)) 0 = Done (Inr 1) \<and>
     pcs (exec example_func 0 int example_schedule (initial example_start)) 2 = Start \<and>
     events (exec example_func 0 int example_schedule (initial example_start))
       = [(0, Acquire 0), (0, AdmitStep 0 (Decided Allow)), (0, Release 0), (1, Acquire 0),
          (1, AdmitStep 0 (Decided (WaitFor 7))), (0, Invoke ''work'')] \<and>
     serial None (events (exec example_func 0 int example_schedule (initial example_start)))
       = Some (Some 1) \<and>
     acquired (events (exec example_func 0 int example_schedule (initial example_start)))
       = released (events (exec example_func 0 int example_schedule (initial example_start)))
         @ [1] \<and>
     set sch' \<subseteq> insert (Run 5) (range Tick) \<and>
     w_call wr 5 example_start = Some (res, w') \<and>
     shared (exec example_func 0 int sch' (initial example_start)) = w' \<and>
     pcs (exec example_func 0 int sch' (initial example_start)) 5 = Done res"
proof -
  let ?s = "exec example_func 0 int example_schedule (initial example_start)"
  let ?ini = "exec example_func 0 int [] (initial example_start)"
  have pc1: "pcs ?s 1 = Sleeping 10 7"
    by code_simp
  have pc0: "pcs ?s 0 = Done (Inr 1)"
    by code_simp
  have pc2: "pcs ?s 2 = Start"
    by code_simp
  have ev: "events ?s = [(0, Acquire 0), (0, AdmitStep 0 (Decided Allow)), (0, Release 0),
                         (1, Acquire 0), (1, AdmitStep 0 (Decided (WaitFor 7))),
                         (0, Invoke ''work'')]"
    by code_simp
  obtain wr w1 where d: "decorator 1 10 False example_func world0 = (Inr wr, w1)"
    by (simp add: decorator_valid)
  have r: "w_cell wr = 0"
    using decorator_Inr [OF d] by (simp add: world0_def)
  have c: "cell example_start (w_cell wr) = Some (example_cell Blocking False [])"
    by (simp add: r cell_def example_start_def)
  have rdy: "ready (example_cell Blocking False [])"
    by (simp add: ready_example_cell)
  have nc: "\<not> cancel_pending example_start"
    by (simp add: example_start_def world0_def)
  have s: "?s = exec example_func (w_cell wr) int example_schedule (initial example_start)"
    by (simp add: r)
  from admission_is_serialized [OF d c rdy nc s]
  obtain h where sh: "serial None (events ?s) = Some h"
    and own: "\<forall>i. in_admission (pcs ?s i) \<longleftrightarrow> h = Some i"
    and ord: "acquired (events ?s) = released (events ?s) @ holding h"
    by blast
  from own pc1 have h: "h = Some 1" by (metis in_admission.simps(2))
  have s0: "?ini = exec example_func (w_cell wr) int [] (initial example_start)"
    by (simp add: r)
  from admission_is_serialized [OF d c rdy nc s0]
  obtain h0 where sh0: "serial None (events ?ini) = Some h0"
    and link: "\<forall>i. h0 = None \<and> pcs ?ini i = Start \<longrightarrow>
              (\<exists>sch' res w'. set sch' \<subseteq> insert (Run i) (range Tick) \<and>
                 w_call wr (int i) (shared ?ini) = Some (res, w') \<and>
                 shared (exec example_func (w_cell wr) int sch' ?ini) = w' \<and>
                 pcs (exec example_func (w_cell wr) int sch' ?ini) i = Done res)"
    by blast
  from sh0 have h0: "h0 = None" by (simp add: initial_def)
  have "pcs ?ini 5 = Start" and sh5: "shared ?ini = example_start"
    by (simp_all add: initial_def)
  with link h0 obtain sch' res w' where sub: "set sch' \<subseteq> insert (Run 5) (range Tick)"
    and call: "w_call wr (int 5) example_start = Some (res, w')"
    and fin: "shared (exec example_func (w_cell wr) int sch' ?ini) = w'"
    and dn: "pcs (exec example_func (w_cell wr) int sch' ?ini) 5 = Done res"
    by metis
  from d pc1 pc0 pc2 ev sh ord h sub call fin dn show ?thesis
    unfolding r by (intro exI conjI) (simp_all add: holding_def)
qed

end
